theory Spec2Isabelle
  imports Main "HOL-Library.Sublist" "HOL-Library.Char_ord" "HOL-Library.List_Lexorder"
begin

section \<open>Text\<close>

text \<open>
  The scraper works on Python \<open>str\<close> values. They are modelled as \<open>string\<close>, one
  \<open>char\<close> per code point, and the model covers ASCII text: the theorems whose content
  depends on the character tables carry the hypothesis \<open>ascii_text\<close>. On such text
  \<open>unicodedata.normalize("NFKD", _)\<close> changes nothing and none of the dash code points
  of \<open>normalize_text\<close> (all beyond U+007F) occurs, character classes of \<open>re\<close> are the
  ASCII ones, and \<open>str.upper\<close> maps \<open>a..z\<close> to \<open>A..Z\<close>.
\<close>

definition code :: "char \<Rightarrow> nat" where
  "code c = of_char c"

definition ascii_text :: "string \<Rightarrow> bool" where
  "ascii_text s = list_all (\<lambda>c. code c < 128) s"

definition is_digit :: "char \<Rightarrow> bool" where
  \<comment> \<open>\<open>\d\<close>\<close>
  "is_digit c = (48 \<le> code c \<and> code c \<le> 57)"

definition is_lower :: "char \<Rightarrow> bool" where
  "is_lower c = (97 \<le> code c \<and> code c \<le> 122)"

definition is_upper :: "char \<Rightarrow> bool" where
  "is_upper c = (65 \<le> code c \<and> code c \<le> 90)"

definition is_word :: "char \<Rightarrow> bool" where
  \<comment> \<open>\<open>\w\<close>: letters, digits and the underscore; \<open>\b\<close> is a change of this class\<close>
  "is_word c = (is_digit c \<or> is_lower c \<or> is_upper c \<or> code c = 95)"

definition is_space :: "char \<Rightarrow> bool" where
  \<comment> \<open>\<open>\s\<close> and \<open>str.strip\<close>: TAB, LF, VT, FF, CR, FS, GS, RS, US and the space\<close>
  "is_space c = ((9 \<le> code c \<and> code c \<le> 13) \<or> (28 \<le> code c \<and> code c \<le> 32))"

definition upper_char :: "char \<Rightarrow> char" where
  "upper_char c = (if is_lower c then char_of (code c - 32) else c)"

definition upper :: "string \<Rightarrow> string" where
  \<comment> \<open>\<open>str.upper\<close>\<close>
  "upper s = map upper_char s"

fun ci_prefix :: "string \<Rightarrow> string \<Rightarrow> string option" where
  \<comment> \<open>a literal of upper-case letters matched under \<open>re.IGNORECASE\<close> at the start
      of the text; the result is the text after the match\<close>
  "ci_prefix [] s = Some s"
| "ci_prefix (p # ps) [] = None"
| "ci_prefix (p # ps) (c # cs) = (if upper_char c = p then ci_prefix ps cs else None)"

fun cs_prefix :: "string \<Rightarrow> string \<Rightarrow> string option" where
  \<comment> \<open>a literal matched case-sensitively at the start of the text\<close>
  "cs_prefix [] s = Some s"
| "cs_prefix (p # ps) [] = None"
| "cs_prefix (p # ps) (c # cs) = (if c = p then cs_prefix ps cs else None)"

fun at_boundary :: "string \<Rightarrow> bool" where
  \<comment> \<open>\<open>\b\<close> after a word character: the text ends or goes on with a non-word character\<close>
  "at_boundary [] = True"
| "at_boundary (c # cs) = (\<not> is_word c)"

fun search_b :: "(string \<Rightarrow> bool) \<Rightarrow> bool \<Rightarrow> string \<Rightarrow> bool" where
  \<comment> \<open>\<open>pattern.search\<close> for a pattern \<open>\bX...\<close> that starts with a letter: the positions
      are tried from left to right; \<open>pw\<close> tells whether the character before the
      position is a word character, \<open>m\<close> matches the pattern after its leading \<open>\b\<close>\<close>
  "search_b m pw [] = False"
| "search_b m pw (c # cs) = ((\<not> pw \<and> m (c # cs)) \<or> search_b m (is_word c) cs)"

subsection \<open>Grade normalisation\<close>

definition digits_b :: "string \<Rightarrow> (string \<times> string) option" where
  \<comment> \<open>\<open>(\d+)\b\<close>: the greedy run of digits must end at a word boundary; giving
      digits back leaves a digit on both sides, so no shorter run can match\<close>
  "digits_b s =
     (let ds = takeWhile is_digit s; rest = dropWhile is_digit s
      in if ds \<noteq> [] \<and> at_boundary rest then Some (ds, rest) else None)"

fun grade_alts :: "string list \<Rightarrow> string \<Rightarrow> (string \<times> string \<times> string) option" where
  \<comment> \<open>the alternatives of \<open>(P|D|G|SB|LSC|NO)(\d+)\b\<close> in order, each with the rest
      of the pattern; the result is group 1, group 2 and the text after the match\<close>
  "grade_alts [] s = None"
| "grade_alts (a # as) s =
     (case ci_prefix a s of
        None \<Rightarrow> grade_alts as s
      | Some r \<Rightarrow>
          (case digits_b r of
             None \<Rightarrow> grade_alts as s
           | Some (ds, rest) \<Rightarrow> Some (take (length a) s, ds, rest)))"

definition grade_match :: "string \<Rightarrow> (string \<times> string \<times> string) option" where
  "grade_match s = grade_alts [''P'', ''D'', ''G'', ''SB'', ''LSC'', ''NO''] s"

lemma ci_prefix_length: "ci_prefix p s = Some r \<Longrightarrow> length s = length p + length r"
  by (induction p s rule: ci_prefix.induct) (auto split: if_splits)

lemma digits_b_length: "digits_b s = Some (ds, r) \<Longrightarrow> length r < length s"
proof -
  assume "digits_b s = Some (ds, r)"
  then have "takeWhile is_digit s \<noteq> []" and "r = dropWhile is_digit s"
    by (auto simp: digits_b_def Let_def split: if_splits)
  moreover have "length (takeWhile is_digit s) + length (dropWhile is_digit s) = length s"
    by (metis length_append takeWhile_dropWhile_id)
  ultimately show ?thesis by (cases "takeWhile is_digit s") auto
qed

lemma grade_alts_length:
  "grade_alts as s = Some (g1, g2, r) \<Longrightarrow> length r < length s"
proof (induction as)
  case Nil
  then show ?case by simp
next
  case (Cons a as)
  then show ?case
    by (auto split: option.splits dest!: ci_prefix_length digits_b_length)
qed

lemma grade_match_length: "grade_match s = Some (g1, g2, r) \<Longrightarrow> length r < length s"
  unfolding grade_match_def by (rule grade_alts_length)

function grade_sub :: "bool \<Rightarrow> string \<Rightarrow> string" where
  \<comment> \<open>\<open>GRADE_NORMALIZE_RE.sub(lambda m: f"{m.group(1).upper()}-{m.group(2)}", text)\<close>:
      a left-to-right scan; \<open>pw\<close> tells whether the character before the position is
      a word character (the leading \<open>\b\<close> needs it not to be)\<close>
  "grade_sub pw [] = []"
| "grade_sub pw (c # cs) =
     (case (if pw then None else grade_match (c # cs)) of
        Some (g1, g2, rest) \<Rightarrow> upper g1 @ ''-'' @ g2 @ grade_sub True rest
      | None \<Rightarrow> c # grade_sub (is_word c) cs)"
  by pat_completeness auto
termination
  by (relation "measure (\<lambda>(pw, s). length s)")
     (auto split: if_splits dest: grade_match_length)

subsection \<open>Whitespace\<close>

function collapse_ws :: "string \<Rightarrow> string" where
  \<comment> \<open>\<open>re.sub(r'\s+', ' ', text)\<close>\<close>
  "collapse_ws [] = []"
| "collapse_ws (c # cs) =
     (if is_space c then CHR '' '' # collapse_ws (dropWhile is_space cs)
      else c # collapse_ws cs)"
  by pat_completeness auto
termination
  by (relation "measure length") (auto simp: length_dropWhile_le less_Suc_eq_le)

definition strip :: "string \<Rightarrow> string" where
  \<comment> \<open>\<open>str.strip()\<close>\<close>
  "strip s = rev (dropWhile is_space (rev (dropWhile is_space s)))"

definition rstrip :: "string \<Rightarrow> string" where
  \<comment> \<open>the right half of \<open>strip\<close>, used in the proofs\<close>
  "rstrip x = rev (dropWhile is_space (rev x))"

subsection \<open>\<open>normalize_text\<close>\<close>

definition nfkd :: "string \<Rightarrow> string" where
  \<comment> \<open>\<open>unicodedata.normalize("NFKD", text)\<close> on ASCII text\<close>
  "nfkd s = s"

definition fold_dashes :: "string \<Rightarrow> string" where
  \<comment> \<open>\<open>re.sub(r'[\u2010...\uFF0D]', '-', text)\<close> on ASCII text, where no character
      of the class occurs\<close>
  "fold_dashes s = s"

definition normalize_text :: "string \<Rightarrow> string" where
  "normalize_text text =
     strip (collapse_ws (upper (grade_sub False (fold_dashes (nfkd text)))))"

subsection \<open>Classification\<close>

definition INCLUDED_GRADES :: "string list" where
  "INCLUDED_GRADES = [''P-1'', ''P-2'', ''P-3'', ''P-4'', ''P-5'', ''D-1'', ''D-2'']"

definition detect_grades :: "string \<Rightarrow> string set" where
  \<comment> \<open>\<open>g in normalized\<close> is the substring test\<close>
  "detect_grades text =
     set (filter (\<lambda>g. sublist g (normalize_text text)) INCLUDED_GRADES)"

definition one_of_b :: "string \<Rightarrow> string \<Rightarrow> bool" where
  \<comment> \<open>one character of the given class, then \<open>\b\<close>\<close>
  "one_of_b cls s = (case s of [] \<Rightarrow> False | c # r \<Rightarrow> c \<in> set cls \<and> at_boundary r)"

definition pat_G :: "string \<Rightarrow> bool" where
  \<comment> \<open>\<open>\bG-[1-7]\b\<close>\<close>
  "pat_G s = (case cs_prefix ''G-'' s of None \<Rightarrow> False | Some r \<Rightarrow> one_of_b ''1234567'' r)"

definition pat_NO :: "string \<Rightarrow> bool" where
  \<comment> \<open>\<open>\bNO[A-D]\b\<close>\<close>
  "pat_NO s = (case cs_prefix ''NO'' s of None \<Rightarrow> False | Some r \<Rightarrow> one_of_b ''ABCD'' r)"

definition pat_lit :: "string \<Rightarrow> string \<Rightarrow> bool" where
  \<comment> \<open>\<open>\bNOA\b\<close>, \<open>\bNOB\b\<close>, \<open>\bNOC\b\<close>, \<open>\bNOD\b\<close>\<close>
  "pat_lit l s = (case cs_prefix l s of None \<Rightarrow> False | Some r \<Rightarrow> at_boundary r)"

definition pat_SB :: "string \<Rightarrow> bool" where
  \<comment> \<open>\<open>\bSB-[1-4]\b\<close>\<close>
  "pat_SB s = (case cs_prefix ''SB-'' s of None \<Rightarrow> False | Some r \<Rightarrow> one_of_b ''1234'' r)"

definition pat_LSC :: "string \<Rightarrow> bool" where
  \<comment> \<open>\<open>\bLSC-\d{1,2}\b\<close>: two digits are tried first, then one\<close>
  "pat_LSC s =
     (case cs_prefix ''LSC-'' s of
        None \<Rightarrow> False
      | Some r \<Rightarrow>
          (case r of
             d1 # d2 # r' \<Rightarrow>
               is_digit d1 \<and> ((is_digit d2 \<and> at_boundary r') \<or> at_boundary (d2 # r'))
           | [d1] \<Rightarrow> is_digit d1
           | [] \<Rightarrow> False))"

definition EXCLUDED_GRADE_PATTERNS :: "(string \<Rightarrow> bool) list" where
  "EXCLUDED_GRADE_PATTERNS =
     [pat_G, pat_NO, pat_lit ''NOA'', pat_lit ''NOB'', pat_lit ''NOC'', pat_lit ''NOD'',
      pat_SB, pat_LSC]"

definition is_excluded_grade :: "string \<Rightarrow> bool" where
  "is_excluded_grade text =
     list_ex (\<lambda>pat. search_b pat False (normalize_text text)) EXCLUDED_GRADE_PATTERNS"

definition pat_consultant :: "string \<Rightarrow> bool" where
  \<comment> \<open>\<open>\bCONSULTAN\<close> under \<open>re.IGNORECASE\<close>\<close>
  "pat_consultant s = (ci_prefix ''CONSULTAN'' s \<noteq> None)"

definition is_consultant :: "string \<Rightarrow> bool" where
  "is_consultant text = search_b pat_consultant False text"

definition pat_intern :: "string \<Rightarrow> bool" where
  \<comment> \<open>\<open>\b(INTERN|FELLOWSHIP)\b\<close> under \<open>re.IGNORECASE\<close>\<close>
  "pat_intern s =
     ((case ci_prefix ''INTERN'' s of None \<Rightarrow> False | Some r \<Rightarrow> at_boundary r) \<or>
      (case ci_prefix ''FELLOWSHIP'' s of None \<Rightarrow> False | Some r \<Rightarrow> at_boundary r))"

definition is_intern_or_fellowship :: "string \<Rightarrow> bool" where
  "is_intern_or_fellowship text = search_b pat_intern False text"

definition should_include_job :: "string \<Rightarrow> bool" where
  "should_include_job combined_text =
     (if is_consultant combined_text then False
      else if is_excluded_grade combined_text then False
      else if detect_grades combined_text \<noteq> {} then True
      else if is_intern_or_fellowship combined_text then True
      else False)"

section \<open>The run\<close>

text \<open>
  A posting of the listing API: the values of its keys \<open>title\<close>, \<open>externalPath\<close>,
  \<open>locationsText\<close>, \<open>postedOn\<close> and \<open>bulletFields\<close>, after the
  \<open>posting.get(key, "")\<close> defaults and with every bullet field converted by \<open>str\<close>.
\<close>

record posting =
  p_title :: string
  p_externalPath :: string
  p_locationsText :: string
  p_postedOn :: string
  p_bulletFields :: "string list"

text \<open>
  The \<open>jobPostingInfo\<close> of a structured detail answer, after the \<open>get(key, "")\<close>
  defaults and \<open>str\<close>.
\<close>

record job_posting_info =
  jobDescription :: string
  additionalInformation :: string
  jobReqSubCategory :: string
  workerSubType :: string

text \<open>One page of the listing API: \<open>data.get("jobPostings", [])\<close> and \<open>data.get("total", 0)\<close>.\<close>

record listing_page =
  jobPostings :: "posting list"
  total :: int

text \<open>
  An HTTP exchange either raises \<open>requests.RequestException\<close> or returns a status code
  and a body. For the structured detail the body is the decoded JSON, \<open>None\<close> when
  \<open>resp.json()\<close> raises \<open>ValueError\<close>.
\<close>

datatype 'a response = RequestException | Response nat 'a

datatype request = PostListing nat | GetDetailJson string | GetDetailText string

text \<open>
  The remote site, the identifier hash and the clock are parameters of a run: what the
  site answers to each request, \<open>generate_numeric_id\<close> (an MD5 digest), and the
  \<open>pubDate\<close> computed from \<open>postedOn\<close> and the current time.
\<close>

record site =
  listing_answer :: "nat \<Rightarrow> listing_page response"
  detail_json_answer :: "string \<Rightarrow> job_posting_info option option response"
  detail_text_answer :: "string \<Rightarrow> string response"
  generate_numeric_id :: "string \<Rightarrow> string"
  pub_date :: "string \<Rightarrow> string"

type_synonym item = "string \<rightharpoonup> string"

definition get :: "item \<Rightarrow> string \<Rightarrow> string" where
  \<comment> \<open>\<open>item.get(key, "")\<close>\<close>
  "get item key = (case item key of None \<Rightarrow> [] | Some v \<Rightarrow> v)"

text \<open>
  The variables of \<open>scrape_jobs\<close> that the processing of a posting updates, and the
  requests sent so far. The variables \<open>offset\<close> and \<open>pages_fetched\<close> of the
  \<open>while\<close> loop are arguments of \<open>paginate\<close>.
\<close>

record run_state =
  included_jobs :: "item list"
  existing_links :: "string set"
  total_processed :: nat
  requests :: "request list"

definition PAGE_SIZE :: nat where "PAGE_SIZE = 20"
definition MAX_INCLUDED_JOBS :: nat where "MAX_INCLUDED_JOBS = 50"
definition MAX_PAGES :: nat where "MAX_PAGES = 50"

fun join :: "string \<Rightarrow> string list \<Rightarrow> string" where
  \<comment> \<open>\<open>sep.join(parts)\<close>\<close>
  "join sep [] = []"
| "join sep [x] = x"
| "join sep (x # y # ys) = x @ sep @ join sep (y # ys)"

definition build_job_url :: "string \<Rightarrow> string" where
  "build_job_url external_path =
     (if prefix ''http'' external_path then external_path
      else ''https://unhcr.wd3.myworkdayjobs.com/en-GB/External'' @ external_path)"

definition fetch_job_listings ::
  "site \<Rightarrow> nat \<Rightarrow> run_state \<Rightarrow> (unit + listing_page) \<times> run_state" where
  \<comment> \<open>\<open>raise_for_status\<close> turns a status of 400 and above into a \<open>RequestException\<close>\<close>
  "fetch_job_listings site off st =
     ((case listing_answer site off of
         RequestException \<Rightarrow> Inl ()
       | Response status data \<Rightarrow> if 400 \<le> status \<and> status < 600 then Inl () else Inr data),
      st\<lparr>requests := requests st @ [PostListing off]\<rparr>)"

definition fetch_job_detail_text :: "site \<Rightarrow> string \<Rightarrow> run_state \<Rightarrow> string \<times> run_state" where
  "fetch_job_detail_text site job_url st =
     ((case detail_text_answer site job_url of
         RequestException \<Rightarrow> []
       | Response status text \<Rightarrow> if status = 200 then text else []),
      st\<lparr>requests := requests st @ [GetDetailText job_url]\<rparr>)"

definition fetch_job_detail_json ::
  "site \<Rightarrow> string \<Rightarrow> run_state \<Rightarrow> job_posting_info option \<times> run_state" where
  \<comment> \<open>the result \<open>None\<close> is the empty dict \<open>{}\<close>\<close>
  "fetch_job_detail_json site external_path st =
     ((case detail_json_answer site external_path of
         RequestException \<Rightarrow> None
       | Response status body \<Rightarrow>
           if status = 200 then (case body of None \<Rightarrow> None | Some d \<Rightarrow> d) else None),
      st\<lparr>requests := requests st @ [GetDetailJson external_path]\<rparr>)"

definition listing_text_of :: "string \<Rightarrow> string \<Rightarrow> string list \<Rightarrow> string" where
  \<comment> \<open>\<open>" ".join([title, location] + [str(f) for f in bullet_fields])\<close>\<close>
  "listing_text_of title location bullet_fields = join '' '' ([title, location] @ bullet_fields)"

definition desc_parts :: "string \<Rightarrow> string \<Rightarrow> string \<Rightarrow> string \<Rightarrow> string list" where
  \<comment> \<open>the list \<open>desc_parts\<close> built for an accepted posting\<close>
  "desc_parts title location listing_text posted_on =
     (let grades = detect_grades (normalize_text listing_text)
      in [''UNHCR has a vacancy for the position of '' @ title @ ''.'',
          ''Location: '' @ location @ ''.'']
         @ (if grades \<noteq> {}
            then [''Grade: '' @ join '', '' (sorted_list_of_set grades) @ ''.''] else [])
         @ (if posted_on \<noteq> [] then [''Posted: '' @ posted_on @ ''.''] else []))"

definition job_item :: "site \<Rightarrow> string \<Rightarrow> string \<Rightarrow> string \<Rightarrow> string \<Rightarrow> string \<Rightarrow> item" where
  "job_item site title job_url location listing_text posted_on =
     [''title'' \<mapsto> title,
      ''link'' \<mapsto> job_url,
      ''description'' \<mapsto> join '' '' (desc_parts title location listing_text posted_on),
      ''guid'' \<mapsto> generate_numeric_id site job_url,
      ''pubDate'' \<mapsto> pub_date site posted_on,
      ''location'' \<mapsto> location]"

definition skip_posting :: "run_state \<Rightarrow> run_state" where
  \<comment> \<open>\<open>total_processed += 1; continue\<close>\<close>
  "skip_posting st = st\<lparr>total_processed := total_processed st + 1\<rparr>"

definition include_posting :: "item \<Rightarrow> string \<Rightarrow> run_state \<Rightarrow> run_state" where
  \<comment> \<open>\<open>included_jobs.append(job_item); existing_links.add(job_url); total_processed += 1\<close>\<close>
  "include_posting it job_url st =
     st\<lparr>included_jobs := included_jobs st @ [it],
        existing_links := insert job_url (existing_links st),
        total_processed := total_processed st + 1\<rparr>"

definition check_detail ::
  "site \<Rightarrow> string \<Rightarrow> string \<Rightarrow> string \<Rightarrow> run_state \<Rightarrow> bool \<times> run_state" where
  \<comment> \<open>the \<open>else\<close> branch for a posting that the listing text does not decide: the
      result is \<open>should_include_job(combined)\<close>\<close>
  "check_detail site external_path job_url listing_text st =
     (let (detail_json, st1) = fetch_job_detail_json site external_path st;
          detail_text =
            (case detail_json of
               None \<Rightarrow> []
             | Some job_desc \<Rightarrow>
                 join '' '' [jobDescription job_desc, additionalInformation job_desc,
                            jobReqSubCategory job_desc, workerSubType job_desc]);
          (detail_text, st2) =
            (if detail_text = [] \<or> \<not> should_include_job (listing_text @ '' '' @ detail_text)
             then (let (html_text, st2) = fetch_job_detail_text site job_url st1
                   in (if html_text \<noteq> [] then html_text else detail_text, st2))
             else (detail_text, st1));
          combined = listing_text @ '' '' @ detail_text
      in (should_include_job combined, st2))"

definition process_posting :: "site \<Rightarrow> posting \<Rightarrow> run_state \<Rightarrow> run_state" where
  \<comment> \<open>the body of \<open>for posting in job_postings\<close> after the test of the cap\<close>
  "process_posting site posting st =
     (let title = strip (p_title posting);
          external_path = p_externalPath posting;
          job_url = build_job_url external_path;
          location = (if p_locationsText posting \<noteq> [] then p_locationsText posting else ''Unknown'');
          posted_on = p_postedOn posting
      in if job_url \<in> existing_links st then skip_posting st
         else
           let listing_text = listing_text_of title location (p_bulletFields posting)
           in if is_consultant listing_text then skip_posting st
              else
                let normalized_listing = normalize_text listing_text;
                    has_included = (detect_grades normalized_listing \<noteq> {});
                    has_excluded = is_excluded_grade normalized_listing;
                    has_intern = is_intern_or_fellowship listing_text;
                    it = job_item site title job_url location listing_text posted_on
                in if has_excluded then skip_posting st
                   else if has_included \<or> has_intern then include_posting it job_url st
                   else
                     let (ok, st1) = check_detail site external_path job_url listing_text st
                     in if \<not> ok then skip_posting st1 else include_posting it job_url st1)"

fun process_postings :: "site \<Rightarrow> posting list \<Rightarrow> run_state \<Rightarrow> run_state" where
  \<comment> \<open>\<open>for posting in job_postings\<close>, left by \<open>break\<close> once the cap is reached\<close>
  "process_postings site [] st = st"
| "process_postings site (posting # rest) st =
     (if length (included_jobs st) \<ge> MAX_INCLUDED_JOBS then st
      else process_postings site rest (process_posting site posting st))"

function paginate :: "site \<Rightarrow> nat \<Rightarrow> nat \<Rightarrow> run_state \<Rightarrow> run_state" where
  \<comment> \<open>the \<open>while\<close> loop of \<open>scrape_jobs\<close>\<close>
  "paginate site offset pages_fetched st =
     (if length (included_jobs st) < MAX_INCLUDED_JOBS \<and> pages_fetched < MAX_PAGES
      then
        (case fetch_job_listings site offset st of
           (Inl e, st1) \<Rightarrow> st1
         | (Inr data, st1) \<Rightarrow>
             if jobPostings data = [] then st1
             else
               let st2 = process_postings site (jobPostings data) st1;
                   total_available = total data
               in if int (offset + PAGE_SIZE) \<ge> total_available then st2
                  else paginate site (offset + PAGE_SIZE) (pages_fetched + 1) st2)
      else st)"
  by pat_completeness auto
termination
  by (relation "measure (\<lambda>(site, offset, pages_fetched, st). MAX_PAGES - pages_fetched)") auto

declare paginate.simps [simp del]

definition merge_items :: "item list \<Rightarrow> item list \<Rightarrow> item list" where
  \<comment> \<open>\<open>all_items = existing_items.copy()\<close>, one \<open>append\<close> per included job, then the
      filter on the length of the title\<close>
  "merge_items existing_items included =
     (let all_items = foldl (\<lambda>acc job. acc @ [job]) existing_items included
      in filter (\<lambda>item. length (get item ''title'') \<ge> 5) all_items)"

definition initial_state :: "string set \<Rightarrow> run_state" where
  "initial_state links =
     \<lparr>included_jobs = [], existing_links = links, total_processed = 0, requests = []\<rparr>"

definition scrape_jobs :: "site \<Rightarrow> string set \<Rightarrow> item list \<Rightarrow> item list" where
  \<comment> \<open>the items handed to \<open>build_rss_xml\<close>; \<open>links\<close> and \<open>existing_items\<close> are what
      \<open>load_existing_links\<close> and \<open>load_existing_items\<close> returned\<close>
  "scrape_jobs site links existing_items =
     merge_items existing_items (included_jobs (paginate site 0 0 (initial_state links)))"

section \<open>Notions used in the statements\<close>

subsection \<open>The excluded grades as a set of tokens\<close>

text \<open>
  A token occurs as a word where no word character stands directly before or after it.
  \<open>excluded_tokens\<close> are the tokens that the patterns of the source match;
  \<open>excluded_tokens_spec\<close> adds the hyphenated national-officer forms that the
  specification names.
\<close>

definition occurs_as_word :: "string \<Rightarrow> string \<Rightarrow> bool" where
  "occurs_as_word tok s =
     (\<exists>pre post. s = pre @ tok @ post \<and> at_boundary (rev pre) \<and> at_boundary post)"

definition excluded_tokens :: "string set" where
  "excluded_tokens =
     {''G-'' @ [d] | d. d \<in> set ''1234567''}
     \<union> {''NO'' @ [d] | d. d \<in> set ''ABCD''}
     \<union> {''SB-'' @ [d] | d. d \<in> set ''1234''}
     \<union> {''LSC-'' @ ds | ds. (length ds = 1 \<or> length ds = 2) \<and> list_all is_digit ds}"

definition excluded_tokens_spec :: "string set" where
  "excluded_tokens_spec = excluded_tokens \<union> {''NO-A'', ''NO-B'', ''NO-C'', ''NO-D''}"

subsection \<open>Names for the values computed per posting\<close>

text \<open>
  The local variables \<open>title\<close>, \<open>job_url\<close>, \<open>location\<close>, \<open>listing_text\<close> and
  \<open>job_item\<close> of the loop body as functions of the posting, the link of a feed item,
  and the invariants used below.
\<close>

definition title_of :: "posting \<Rightarrow> string" where
  "title_of p = strip (p_title p)"

definition job_url_of :: "posting \<Rightarrow> string" where
  "job_url_of p = build_job_url (p_externalPath p)"

definition location_of :: "posting \<Rightarrow> string" where
  "location_of p = (if p_locationsText p \<noteq> [] then p_locationsText p else ''Unknown'')"

definition listing_text :: "posting \<Rightarrow> string" where
  "listing_text p = listing_text_of (title_of p) (location_of p) (p_bulletFields p)"

definition posting_item :: "site \<Rightarrow> posting \<Rightarrow> item" where
  "posting_item site p =
     job_item site (title_of p) (job_url_of p) (location_of p) (listing_text p) (p_postedOn p)"

definition link :: "item \<Rightarrow> string" where
  "link it = get it ''link''"

definition is_listing :: "request \<Rightarrow> bool" where
  "is_listing r = (case r of PostListing off \<Rightarrow> True | _ \<Rightarrow> False)"

definition same_items :: "run_state \<Rightarrow> run_state \<Rightarrow> bool" where
  "same_items st1 st =
     (included_jobs st1 = included_jobs st \<and> existing_links st1 = existing_links st
      \<and> total_processed st1 = total_processed st
      \<and> filter is_listing (requests st1) = filter is_listing (requests st))"

definition links_inv :: "string set \<Rightarrow> run_state \<Rightarrow> bool" where
  "links_inv L st =
     (distinct (map link (included_jobs st))
      \<and> link ` set (included_jobs st) \<subseteq> existing_links st
      \<and> L \<subseteq> existing_links st
      \<and> link ` set (included_jobs st) \<inter> L = {})"

subsection \<open>Undecided postings and detail requests without text\<close>

text \<open>
  A posting is undecided when its link is new and the listing text gives none of the
  four signals, computed as the loop body computes them. A detail request brings no text
  when it fails, answers with another status than 200, or answers with whitespace only.
\<close>

definition json_no_text :: "job_posting_info option option response \<Rightarrow> bool" where
  "json_no_text r =
     (case r of
        RequestException \<Rightarrow> True
      | Response status body \<Rightarrow>
          status \<noteq> 200 \<or>
          (case body of
             None \<Rightarrow> True
           | Some None \<Rightarrow> True
           | Some (Some d) \<Rightarrow>
               list_all is_space (jobDescription d) \<and> list_all is_space (additionalInformation d)
               \<and> list_all is_space (jobReqSubCategory d) \<and> list_all is_space (workerSubType d)))"

definition html_no_text :: "string response \<Rightarrow> bool" where
  "html_no_text r =
     (case r of
        RequestException \<Rightarrow> True
      | Response status text \<Rightarrow> status \<noteq> 200 \<or> list_all is_space text)"

definition undecided :: "posting \<Rightarrow> run_state \<Rightarrow> bool" where
  "undecided p st =
     (job_url_of p \<notin> existing_links st
      \<and> \<not> is_consultant (listing_text p)
      \<and> \<not> is_excluded_grade (normalize_text (listing_text p))
      \<and> detect_grades (normalize_text (listing_text p)) = {}
      \<and> \<not> is_intern_or_fellowship (listing_text p))"

section \<open>Example inputs\<close>

text \<open>Concrete sites, postings and items at which the theorems below are instantiated.\<close>

definition offline_site :: site where
  "offline_site =
     \<lparr>listing_answer = (\<lambda>off. RequestException),
      detail_json_answer = (\<lambda>path. RequestException),
      detail_text_answer = (\<lambda>url. RequestException),
      generate_numeric_id = (\<lambda>url. url),
      pub_date = (\<lambda>posted_on. posted_on)\<rparr>"

definition driver_posting :: posting where
  "driver_posting =
     \<lparr>p_title = ''Driver'', p_externalPath = ''/job/3'', p_locationsText = ''Juba'',
      p_postedOn = [], p_bulletFields = []\<rparr>"

definition old_item :: item where
  "old_item = [''title'' \<mapsto> ''Old posting'', ''link'' \<mapsto> ''https://example.org/job/1'']"

definition old_posting :: posting where
  "old_posting =
     \<lparr>p_title = ''Protection Officer P-3'', p_externalPath = ''https://example.org/job/1'',
      p_locationsText = ''Geneva'', p_postedOn = [], p_bulletFields = []\<rparr>"

definition page_site :: "posting list \<Rightarrow> int \<Rightarrow> site" where
  "page_site ps n =
     offline_site\<lparr>listing_answer :=
       (\<lambda>off. if off = 0 then Response 200 \<lparr>jobPostings = ps, total = n\<rparr>
              else RequestException)\<rparr>"

section \<open>Lemmas on characters and matching\<close>

lemma code_char_of: "n < 256 \<Longrightarrow> code (char_of n) = n"
  by (simp add: code_def)

lemma code_upper_char: "code (upper_char c) = (if is_lower c then code c - 32 else code c)"
  by (auto simp: upper_char_def is_lower_def code_char_of)

lemma is_digit_upper [simp]: "is_digit (upper_char c) = is_digit c"
  by (auto simp: is_digit_def code_upper_char is_lower_def)

lemma is_space_upper [simp]: "is_space (upper_char c) = is_space c"
  by (auto simp: is_space_def code_upper_char is_lower_def)

lemma is_word_upper [simp]: "is_word (upper_char c) = is_word c"
  by (auto simp: is_word_def is_digit_def is_upper_def code_upper_char is_lower_def)

lemma is_lower_upper [simp]: "\<not> is_lower (upper_char c)"
  by (auto simp: code_upper_char is_lower_def)

lemma upper_char_idem [simp]: "upper_char (upper_char c) = upper_char c"
  using is_lower_upper[of c] by (simp add: upper_char_def[of "upper_char c"])

lemma digit_word: "is_digit c \<Longrightarrow> is_word c"
  by (simp add: is_word_def)

lemma space_not_word: "is_space c \<Longrightarrow> \<not> is_word c"
  by (auto simp: is_word_def is_space_def is_digit_def is_lower_def is_upper_def)

lemma space_not_digit: "is_space c \<Longrightarrow> \<not> is_digit c"
  using digit_word space_not_word by blast

lemma upper_letter_word: "is_upper (upper_char c) \<Longrightarrow> is_word c \<and> \<not> is_digit c \<and> \<not> is_space c"
  by (auto simp: is_word_def is_digit_def is_upper_def is_lower_def is_space_def upper_char_def
      code_char_of split: if_splits)

lemma is_space_space [simp]: "is_space (CHR '' '')"
  by (simp add: is_space_def code_def)

lemma upper_space [simp]: "upper_char (CHR '' '') = CHR '' ''"
  by (simp add: upper_char_def is_lower_def code_def)

lemma not_word_hyphen [simp]: "\<not> is_word (CHR ''-'')"
  by (simp add: is_word_def is_digit_def is_lower_def is_upper_def code_def)

lemma not_space_hyphen [simp]: "\<not> is_space (CHR ''-'')"
  by (simp add: is_space_def code_def)

lemma upper_hyphen [simp]: "upper_char (CHR ''-'') = CHR ''-''"
  by (simp add: upper_char_def is_lower_def code_def)

lemma at_boundary_upper [simp]: "at_boundary (upper s) = at_boundary s"
  by (cases s) (simp_all add: upper_def)

lemma upper_append [simp]: "upper (a @ b) = upper a @ upper b"
  by (simp add: upper_def)

lemma upper_idem [simp]: "upper (upper s) = upper s"
  by (simp add: upper_def)

lemma upper_Nil [simp]: "upper [] = []"
  by (simp add: upper_def)

lemma upper_Cons [simp]: "upper (c # cs) = upper_char c # upper cs"
  by (simp add: upper_def)

lemma upper_eq_Nil [simp]: "upper s = [] \<longleftrightarrow> s = []"
  by (simp add: upper_def)

lemma length_upper [simp]: "length (upper s) = length s"
  by (simp add: upper_def)

lemma ci_prefix_split:
  "ci_prefix a s = Some r \<Longrightarrow> s = take (length a) s @ r \<and> upper (take (length a) s) = a"
  by (induction a s rule: ci_prefix.induct) (auto split: if_splits)

lemma ci_prefix_app:
  "list_all is_upper a \<Longrightarrow> at_boundary d \<Longrightarrow>
   ci_prefix a (w @ d) = map_option (\<lambda>r. r @ d) (ci_prefix a w)"
proof (induction a w rule: ci_prefix.induct)
  case (1 s)
  then show ?case by simp
next
  case (2 p ps)
  then show ?case by (cases d) (auto dest: upper_letter_word)
next
  case (3 p ps c cs)
  then show ?case by simp
qed

lemma digits_b_Some:
  "digits_b s = Some (ds, r) \<Longrightarrow>
   s = ds @ r \<and> ds \<noteq> [] \<and> list_all is_digit ds \<and> at_boundary r"
  by (auto simp: digits_b_def Let_def list_all_iff split: if_splits dest: set_takeWhileD)

lemma at_boundary_not_digit: "at_boundary d \<Longrightarrow> takeWhile is_digit d = []"
  by (cases d) (auto dest: digit_word)

lemma at_boundary_app: "at_boundary d \<Longrightarrow> at_boundary (r @ d) = at_boundary r"
  by (cases r) auto

lemma digits_b_app:
  assumes "at_boundary d"
  shows "digits_b (w @ d) = map_option (\<lambda>(ds, r). (ds, r @ d)) (digits_b w)"
proof (cases "\<forall>x\<in>set w. is_digit x")
  case True
  then have tw: "takeWhile is_digit w = w" and dw: "dropWhile is_digit w = []"
    by simp_all
  from assms have dd: "dropWhile is_digit d = d"
    by (cases d) (auto dest: digit_word)
  from True assms dd have "takeWhile is_digit (w @ d) = w" "dropWhile is_digit (w @ d) = d"
    by (simp_all add: takeWhile_append dropWhile_append at_boundary_not_digit)
  then show ?thesis using assms by (simp add: digits_b_def Let_def tw dw)
next
  case False
  then have "takeWhile is_digit (w @ d) = takeWhile is_digit w"
    "dropWhile is_digit (w @ d) = dropWhile is_digit w @ d"
    "dropWhile is_digit w \<noteq> []"
    by (auto simp: takeWhile_append dropWhile_append dropWhile_eq_Nil_conv)
  then show ?thesis
    by (cases "dropWhile is_digit w") (auto simp: digits_b_def Let_def)
qed

lemma grade_alts_app:
  assumes "\<forall>a\<in>set as. list_all is_upper a" "at_boundary d"
  shows "grade_alts as (w @ d) = map_option (\<lambda>(g1, g2, r). (g1, g2, r @ d)) (grade_alts as w)"
  using assms(1)
proof (induction as)
  case Nil
  then show ?case by simp
next
  case (Cons a as)
  then show ?case
    using assms(2)
    by (auto simp: ci_prefix_app digits_b_app split: option.splits dest: ci_prefix_length)
qed

lemma cats_upper: "\<forall>a\<in>set [''P'', ''D'', ''G'', ''SB'', ''LSC'', ''NO'']. list_all is_upper a"
  by (simp add: is_upper_def code_def)

lemma grade_match_app:
  "at_boundary d \<Longrightarrow>
   grade_match (w @ d) = map_option (\<lambda>(g1, g2, r). (g1, g2, r @ d)) (grade_match w)"
  unfolding grade_match_def by (rule grade_alts_app[OF cats_upper])

lemma grade_alts_Some:
  "grade_alts as s = Some (g1, g2, r) \<Longrightarrow>
   s = g1 @ g2 @ r \<and> upper g1 \<in> set as \<and> g2 \<noteq> [] \<and> list_all is_digit g2 \<and> at_boundary r"
proof (induction as)
  case Nil
  then show ?case by simp
next
  case (Cons a as)
  show ?case
  proof (cases "ci_prefix a s")
    case None
    with Cons show ?thesis by auto
  next
    case (Some r1)
    note r1 = this
    show ?thesis
    proof (cases "digits_b r1")
      case None
      with r1 Cons show ?thesis by auto
    next
      case (Some p)
      obtain ds r2 where p: "p = (ds, r2)" by (cases p)
      from Cons.prems r1 Some p have eq: "g1 = take (length a) s" "g2 = ds" "r = r2"
        by auto
      from ci_prefix_split[OF r1] digits_b_Some[of r1 ds r2] Some p eq
      show ?thesis by auto
    qed
  qed
qed

lemma grade_match_Some:
  "grade_match s = Some (g1, g2, r) \<Longrightarrow>
   s = g1 @ g2 @ r \<and> upper g1 \<in> set [''P'', ''D'', ''G'', ''SB'', ''LSC'', ''NO'']
   \<and> g2 \<noteq> [] \<and> list_all is_digit g2 \<and> at_boundary r"
  unfolding grade_match_def by (rule grade_alts_Some)

lemma grade_match_first:
  assumes "grade_match (c # cs) = Some x"
  shows "is_upper (upper_char c)"
proof -
  obtain g1 g2 r where x: "x = (g1, g2, r)" by (cases x)
  from grade_match_Some[OF assms[unfolded x]]
  have s: "c # cs = g1 @ g2 @ r"
    and u: "upper g1 \<in> set [''P'', ''D'', ''G'', ''SB'', ''LSC'', ''NO'']" by simp_all
  from u obtain c' g1' where g1: "g1 = c' # g1'" by (cases g1) auto
  with s have "c' = c" by simp
  with u g1 show ?thesis by (auto simp: is_upper_def code_def)
qed

lemma grade_match_nonword: "\<not> is_word c \<Longrightarrow> grade_match (c # cs) = None"
  using grade_match_first[of c cs] upper_letter_word[of c] by (cases "grade_match (c # cs)") auto

lemma grade_match_Nil [simp]: "grade_match [] = None"
  by (simp add: grade_match_def)

lemma grade_sub_match:
  "\<not> pw \<Longrightarrow> grade_match (c # cs) = Some (g1, g2, rest) \<Longrightarrow>
   grade_sub pw (c # cs) = upper g1 @ ''-'' @ g2 @ grade_sub True rest"
  by simp

lemma grade_sub_step:
  "pw \<or> grade_match (c # cs) = None \<Longrightarrow>
   grade_sub pw (c # cs) = c # grade_sub (is_word c) cs"
  by auto

lemmas [simp del] = grade_sub.simps(2)

lemma grade_sub_induct [case_names Nil Match Step]:
  assumes nil: "\<And>pw. P pw []"
    and mtch: "\<And>pw c cs g1 g2 rest.
      \<not> pw \<Longrightarrow> grade_match (c # cs) = Some (g1, g2, rest) \<Longrightarrow> P True rest \<Longrightarrow> P pw (c # cs)"
    and step: "\<And>pw c cs.
      pw \<or> grade_match (c # cs) = None \<Longrightarrow> P (is_word c) cs \<Longrightarrow> P pw (c # cs)"
  shows "P pw s"
proof (induction s arbitrary: pw rule: length_induct)
  case (1 s)
  show ?case
  proof (cases s)
    case Nil
    then show ?thesis by (simp add: nil)
  next
    case (Cons c cs)
    show ?thesis
    proof (cases "pw \<or> grade_match (c # cs) = None")
      case True
      moreover have "P (is_word c) cs" using 1 Cons by simp
      ultimately show ?thesis unfolding Cons by (rule step)
    next
      case False
      then obtain g1 g2 rest where m: "grade_match (c # cs) = Some (g1, g2, rest)" and "\<not> pw"
        by auto
      from grade_match_length[OF m] have "P True rest" using 1 Cons by simp
      with \<open>\<not> pw\<close> m show ?thesis unfolding Cons by (rule mtch)
    qed
  qed
qed

lemma grade_sub_boundary: "at_boundary d \<Longrightarrow> grade_sub pw d = grade_sub False d"
  by (cases d) (simp_all add: grade_sub_step grade_match_nonword)

lemma grade_sub_app:
  "at_boundary d \<Longrightarrow> grade_sub pw (w @ d) = grade_sub pw w @ grade_sub False d"
proof (induction pw w rule: grade_sub_induct)
  case (Nil pw)
  then show ?case by (simp add: grade_sub_boundary[of d pw])
next
  case (Match pw c cs g1 g2 rest)
  from Match(2) Match.prems have "grade_match (c # cs @ d) = Some (g1, g2, rest @ d)"
    using grade_match_app[of d "c # cs"] by simp
  with Match show ?case by (simp add: grade_sub_match)
next
  case (Step pw c cs)
  from Step(1) Step.prems have "pw \<or> grade_match (c # cs @ d) = None"
    using grade_match_app[of d "c # cs"] by auto
  with Step show ?case by (simp add: grade_sub_step)
qed

lemma word_run_split:
  assumes "w \<noteq> []" "\<not> is_word (last w)"
  shows "dropWhile is_word w \<noteq> [] \<and> at_boundary (dropWhile is_word w)"
proof -
  from assms have "last w \<in> set w" "\<not> is_word (last w)" by simp_all
  then have ne: "dropWhile is_word w \<noteq> []" by (auto simp: dropWhile_eq_Nil_conv)
  then have "\<not> is_word (hd (dropWhile is_word w))" by (rule hd_dropWhile)
  with ne show ?thesis by (cases "dropWhile is_word w") auto
qed

lemma grade_match_app2:
  assumes "w \<noteq> []" "\<not> is_word (last w)"
  shows "grade_match (w @ b) = map_option (\<lambda>(g1, g2, r). (g1, g2, r @ b)) (grade_match w)"
proof -
  let ?u = "takeWhile is_word w" and ?v = "dropWhile is_word w"
  from word_run_split[OF assms] have v: "?v \<noteq> []" "at_boundary ?v" by simp_all
  then have vb: "at_boundary (?v @ b)" by (cases ?v) auto
  have "grade_match (w @ b) = grade_match (?u @ (?v @ b))"
    by (simp flip: append_assoc)
  also have "\<dots> = map_option (\<lambda>(g1, g2, r). (g1, g2, r @ ?v @ b)) (grade_match ?u)"
    by (rule grade_match_app[OF vb])
  finally have 1: "grade_match (w @ b) =
    map_option (\<lambda>(g1, g2, r). (g1, g2, r @ ?v @ b)) (grade_match ?u)" .
  have "grade_match w = grade_match (?u @ ?v)" by simp
  also have "\<dots> = map_option (\<lambda>(g1, g2, r). (g1, g2, r @ ?v)) (grade_match ?u)"
    by (rule grade_match_app[OF v(2)])
  finally have 2: "grade_match w = map_option (\<lambda>(g1, g2, r). (g1, g2, r @ ?v)) (grade_match ?u)" .
  show ?thesis unfolding 1 2 by (cases "grade_match ?u") auto
qed

lemma grade_sub_app2:
  "w \<noteq> [] \<Longrightarrow> \<not> is_word (last w) \<Longrightarrow>
   grade_sub pw (w @ b) = grade_sub pw w @ grade_sub False b"
proof (induction pw w rule: grade_sub_induct)
  case (Nil pw)
  then show ?case by simp
next
  case (Match pw c cs g1 g2 rest)
  from grade_match_Some[OF Match(2)]
  have s: "c # cs = g1 @ g2 @ rest" and g2: "g2 \<noteq> []" "list_all is_digit g2" by simp_all
  have rest: "rest \<noteq> []"
  proof
    assume "rest = []"
    with s g2 have "last (c # cs) = last g2" by simp
    moreover from g2 have "is_digit (last g2)" by (simp add: list_all_iff)
    ultimately show False using Match.prems(2) digit_word by auto
  qed
  with s have "last rest = last (c # cs)" by simp
  with Match.prems rest Match.IH
  have ih: "grade_sub True (rest @ b) = grade_sub True rest @ grade_sub False b" by simp
  from Match(2) Match.prems have "grade_match (c # cs @ b) = Some (g1, g2, rest @ b)"
    using grade_match_app2[of "c # cs" b] by simp
  with Match(1,2) ih show ?case by (simp add: grade_sub_match)
next
  case (Step pw c cs)
  show ?case
  proof (cases cs)
    case Nil
    with Step.prems have "\<not> is_word c" by simp
    then show ?thesis using Nil
      by (simp add: grade_sub_step grade_match_nonword)
  next
    case (Cons x xs)
    with Step.prems Step.IH
    have ih: "grade_sub (is_word c) (cs @ b) = grade_sub (is_word c) cs @ grade_sub False b"
      by simp
    from Step(1) Step.prems have "pw \<or> grade_match (c # cs @ b) = None"
      using grade_match_app2[of "c # cs" b] by auto
    with Step(1) ih show ?thesis by (simp add: grade_sub_step)
  qed
qed

lemma grade_sub_no_digit: "\<forall>c\<in>set x. \<not> is_digit c \<Longrightarrow> grade_sub pw x = x"
proof (induction x arbitrary: pw)
  case Nil
  then show ?case by simp
next
  case (Cons c cs)
  have "grade_match (c # cs) = None"
  proof (cases "grade_match (c # cs)")
    case (Some x)
    obtain g1 g2 r where "x = (g1, g2, r)" by (cases x)
    with grade_match_Some[of "c # cs" g1 g2 r] Some
    have "c # cs = g1 @ g2 @ r" "g2 \<noteq> []" "list_all is_digit g2" by simp_all
    then have "hd g2 \<in> set (c # cs)" "is_digit (hd g2)"
      by (cases g2; simp)+
    with Cons.prems show ?thesis by blast
  qed simp
  with Cons show ?case by (simp add: grade_sub_step)
qed

lemma grade_sub_all_word:
  "list_all is_word w \<Longrightarrow> grade_sub True (w @ d) = w @ grade_sub True d"
  by (induction w) (simp_all add: grade_sub_step)

lemma grade_match_digit: "is_digit c \<Longrightarrow> grade_match (c # cs) = None"
  using grade_match_first[of c cs] upper_letter_word[of c] by (cases "grade_match (c # cs)") auto

lemma grade_sub_digits:
  assumes "g2 \<noteq> []" "list_all is_digit g2"
  shows "grade_sub pw (g2 @ z) = g2 @ grade_sub True z"
proof -
  from assms obtain c g where g2: "g2 = c # g" "is_digit c" "list_all is_digit g"
    by (cases g2) auto
  then have "list_all is_word g" by (auto simp: list_all_iff dest: digit_word)
  with g2 show ?thesis
    by (simp add: grade_sub_step grade_match_digit digit_word grade_sub_all_word)
qed

lemma cats_no_digit:
  "upper g1 \<in> set [''P'', ''D'', ''G'', ''SB'', ''LSC'', ''NO''] \<Longrightarrow>
   g1 \<noteq> [] \<and> (\<forall>c\<in>set (upper g1). \<not> is_digit c \<and> \<not> is_space c \<and> is_word c)"
  by (auto simp: is_digit_def is_space_def is_word_def is_upper_def code_def)

lemma at_boundary_grade_sub: "at_boundary v \<Longrightarrow> at_boundary (grade_sub pw v)"
  by (cases v) (simp_all add: grade_sub_step grade_match_nonword)

lemma at_boundary_dropWhile: "at_boundary (dropWhile is_word s)"
  by (induction s) auto

lemma take_upper: "take n (upper s) = upper (take n s)"
  by (simp add: upper_def take_map)

lemma grade_match_word_cong:
  assumes "is_word c"
  shows "grade_match (c # grade_sub True cs) = None \<longleftrightarrow> grade_match (c # cs) = None"
proof -
  let ?u = "takeWhile is_word cs" and ?v = "dropWhile is_word cs"
  have v: "at_boundary ?v" by (rule at_boundary_dropWhile)
  have u: "list_all is_word ?u" by (auto simp: list_all_iff dest: set_takeWhileD)
  have "grade_sub True cs = grade_sub True (?u @ ?v)" by simp
  also have "\<dots> = ?u @ grade_sub True ?v" by (rule grade_sub_all_word[OF u])
  finally have "grade_match (c # grade_sub True cs) = grade_match ((c # ?u) @ grade_sub True ?v)"
    by simp
  also have "\<dots> = map_option (\<lambda>(g1, g2, r). (g1, g2, r @ grade_sub True ?v)) (grade_match (c # ?u))"
    by (rule grade_match_app[OF at_boundary_grade_sub[OF v]])
  finally have 1: "grade_match (c # grade_sub True cs) = None \<longleftrightarrow> grade_match (c # ?u) = None"
    by simp
  have "grade_match (c # cs) = grade_match ((c # ?u) @ ?v)" by simp
  also have "\<dots> = map_option (\<lambda>(g1, g2, r). (g1, g2, r @ ?v)) (grade_match (c # ?u))"
    by (rule grade_match_app[OF v])
  finally have 2: "grade_match (c # cs) = None \<longleftrightarrow> grade_match (c # ?u) = None"
    by simp
  from 1 2 show ?thesis by simp
qed

lemma grade_sub_idem: "grade_sub pw (grade_sub pw s) = grade_sub pw s"
proof (induction pw s rule: grade_sub_induct)
  case (Nil pw)
  then show ?case by simp
next
  case (Match pw c cs g1 g2 rest)
  from grade_match_Some[OF Match(2)]
  have g1: "upper g1 \<in> set [''P'', ''D'', ''G'', ''SB'', ''LSC'', ''NO'']"
    and g2: "g2 \<noteq> []" "list_all is_digit g2" by simp_all
  from cats_no_digit[OF g1] have nd: "\<forall>c\<in>set (upper g1 @ ''-''). \<not> is_digit c"
    by (auto simp: is_digit_def code_def)
  have "grade_sub pw ((upper g1 @ ''-'') @ (g2 @ grade_sub True rest))
      = grade_sub pw (upper g1 @ ''-'') @ grade_sub False (g2 @ grade_sub True rest)"
    by (rule grade_sub_app2) simp_all
  also have "\<dots> = (upper g1 @ ''-'') @ g2 @ grade_sub True (grade_sub True rest)"
    by (simp only: grade_sub_no_digit[OF nd] grade_sub_digits[OF g2])
  finally show ?case using Match by (simp add: grade_sub_match)
next
  case (Step pw c cs)
  have "pw \<or> grade_match (c # grade_sub (is_word c) cs) = None"
  proof (cases "is_word c")
    case True
    with Step(1) show ?thesis by (auto simp: grade_match_word_cong)
  next
    case False
    then show ?thesis by (simp add: grade_match_nonword)
  qed
  with Step show ?case by (simp add: grade_sub_step)
qed

lemma ci_prefix_upper: "ci_prefix a (upper s) = map_option upper (ci_prefix a s)"
  by (induction a s rule: ci_prefix.induct) simp_all

lemma digits_b_upper:
  "digits_b (upper r) = map_option (\<lambda>(ds, r). (upper ds, upper r)) (digits_b r)"
proof -
  have "is_digit \<circ> upper_char = is_digit" by (simp add: fun_eq_iff)
  then have "takeWhile is_digit (upper r) = upper (takeWhile is_digit r)"
    "dropWhile is_digit (upper r) = upper (dropWhile is_digit r)"
    by (simp_all add: upper_def takeWhile_map dropWhile_map)
  then show ?thesis by (simp add: digits_b_def Let_def)
qed

lemma grade_alts_upper:
  "grade_alts as (upper s) =
   map_option (\<lambda>(g1, g2, r). (upper g1, upper g2, upper r)) (grade_alts as s)"
  by (induction as)
     (auto simp: ci_prefix_upper digits_b_upper take_upper split: option.splits)

lemma grade_sub_upper: "grade_sub pw (upper s) = upper (grade_sub pw s)"
proof (induction pw s rule: grade_sub_induct)
  case (Nil pw)
  then show ?case by simp
next
  case (Match pw c cs g1 g2 rest)
  from Match(2) have "grade_match (upper_char c # upper cs) = Some (upper g1, upper g2, upper rest)"
    using grade_alts_upper[of _ "c # cs"] by (simp add: grade_match_def)
  with Match show ?case by (simp add: grade_sub_match)
next
  case (Step pw c cs)
  from Step(1) have "pw \<or> grade_match (upper_char c # upper cs) = None"
    using grade_alts_upper[of _ "c # cs"] by (auto simp: grade_match_def)
  with Step show ?case by (simp add: grade_sub_step)
qed

lemma grade_sub_hd:
  "s \<noteq> [] \<Longrightarrow> grade_sub pw s \<noteq> [] \<and> is_space (hd (grade_sub pw s)) = is_space (hd s)"
proof (cases s)
  case Nil
  then show "s \<noteq> [] \<Longrightarrow> ?thesis" by simp
next
  case (Cons c cs)
  show ?thesis
  proof (cases "pw \<or> grade_match (c # cs) = None")
    case True
    then show ?thesis using Cons by (simp add: grade_sub_step)
  next
    case False
    then obtain g1 g2 rest where m: "grade_match (c # cs) = Some (g1, g2, rest)" and "\<not> pw"
      by auto
    from grade_match_Some[OF m] cats_no_digit[of g1]
    have "g1 \<noteq> []" "c # cs = g1 @ g2 @ rest" by simp_all
    then obtain g where "g1 = c # g" by (cases g1) auto
    with m \<open>\<not> pw\<close> Cons show ?thesis by (simp add: grade_sub_match)
  qed
qed

lemma grade_sub_last:
  "s \<noteq> [] \<Longrightarrow> grade_sub pw s \<noteq> [] \<and> last (grade_sub pw s) = last s"
proof (induction pw s rule: grade_sub_induct)
  case (Nil pw)
  then show ?case by simp
next
  case (Match pw c cs g1 g2 rest)
  from grade_match_Some[OF Match(2)]
  have s: "c # cs = g1 @ g2 @ rest" and g2: "g2 \<noteq> []" by simp_all
  from Match(1,2) have eq: "grade_sub pw (c # cs) = upper g1 @ ''-'' @ g2 @ grade_sub True rest"
    by (rule grade_sub_match)
  show ?case
  proof (cases rest)
    case Nil
    with s g2 have "last (c # cs) = last g2" by simp
    then show ?thesis unfolding eq using Nil g2 by simp
  next
    case (Cons x xs)
    with Match.IH have "grade_sub True rest \<noteq> []" "last (grade_sub True rest) = last rest"
      by simp_all
    moreover from s Cons have "last (c # cs) = last rest" by simp
    ultimately show ?thesis unfolding eq by simp
  qed
next
  case (Step pw c cs)
  then show ?case by (cases cs) (simp_all add: grade_sub_step)
qed

subsection \<open>Whitespace lemmas\<close>

lemma rstrip_Nil [simp]: "rstrip [] = []"
  by (simp add: rstrip_def)

lemma strip_rstrip: "strip s = rstrip (dropWhile is_space s)"
  by (simp add: strip_def rstrip_def)

lemma rstrip_app_spaces:
  assumes "list_all is_space ws"
  shows "rstrip (x @ ws) = rstrip x"
proof -
  from assms have "dropWhile is_space (rev ws @ rev x) = dropWhile is_space (rev x)"
    by (intro dropWhile_append2) (simp add: list_all_iff)
  then show ?thesis by (simp add: rstrip_def)
qed

lemma rstrip_fix: "x = [] \<or> \<not> is_space (last x) \<Longrightarrow> rstrip x = x"
  by (cases x rule: rev_cases) (auto simp: rstrip_def)

lemma rstrip_split: "\<exists>ws. list_all is_space ws \<and> x = rstrip x @ ws"
proof -
  have "rev x = takeWhile is_space (rev x) @ dropWhile is_space (rev x)" by simp
  then have "x = rev (dropWhile is_space (rev x)) @ rev (takeWhile is_space (rev x))"
    by (metis rev_append rev_rev_ident)
  moreover have "list_all is_space (rev (takeWhile is_space (rev x)))"
    by (auto simp: list_all_iff dest: set_takeWhileD)
  ultimately show ?thesis unfolding rstrip_def by blast
qed

lemma rstrip_last: "rstrip x = [] \<or> \<not> is_space (last (rstrip x))"
proof (cases "dropWhile is_space (rev x)")
  case Nil
  then show ?thesis by (simp add: rstrip_def)
next
  case (Cons c cs)
  with hd_dropWhile[of is_space "rev x"] have "\<not> is_space c" by simp
  with Cons show ?thesis by (simp add: rstrip_def)
qed

lemma lstrip_hd: "dropWhile is_space x = [] \<or> \<not> is_space (hd (dropWhile is_space x))"
  using hd_dropWhile[of is_space x] by blast

lemma lstrip_fix: "x = [] \<or> \<not> is_space (hd x) \<Longrightarrow> dropWhile is_space x = x"
  by (cases x) auto

lemma spaces_boundary: "list_all is_space ws \<Longrightarrow> at_boundary ws"
  by (cases ws) (auto dest: space_not_word)

lemma spaces_no_digit: "list_all is_space ws \<Longrightarrow> \<forall>c\<in>set ws. \<not> is_digit c"
  by (auto simp: list_all_iff dest: space_not_digit)

lemma collapse_nospace_app:
  "\<forall>c\<in>set x. \<not> is_space c \<Longrightarrow> collapse_ws (x @ y) = x @ collapse_ws y"
  by (induction x) simp_all

lemma at_boundary_collapse [simp]: "at_boundary (collapse_ws v) = at_boundary v"
  by (cases v) (auto dest: space_not_word simp: space_not_word[OF is_space_space])

lemma word_no_space: "list_all is_word u \<Longrightarrow> \<forall>c\<in>set u. \<not> is_space c"
  using space_not_word by (auto simp: list_all_iff)

lemma takeWhile_word: "list_all is_word (takeWhile is_word s)"
  by (auto simp: list_all_iff dest: set_takeWhileD)

lemma grade_match_collapse:
  "grade_match (collapse_ws s) =
   map_option (\<lambda>(g1, g2, r). (g1, g2, collapse_ws r)) (grade_match s)"
proof -
  let ?u = "takeWhile is_word s" and ?v = "dropWhile is_word s"
  have u: "\<forall>c\<in>set ?u. \<not> is_space c" by (rule word_no_space[OF takeWhile_word])
  have "collapse_ws s = collapse_ws (?u @ ?v)" by simp
  also have "\<dots> = ?u @ collapse_ws ?v" by (rule collapse_nospace_app[OF u])
  finally have "grade_match (collapse_ws s) = grade_match (?u @ collapse_ws ?v)" by simp
  also have "\<dots> = map_option (\<lambda>(g1, g2, r). (g1, g2, r @ collapse_ws ?v)) (grade_match ?u)"
    by (rule grade_match_app) (simp add: at_boundary_dropWhile)
  finally have 1: "grade_match (collapse_ws s) =
    map_option (\<lambda>(g1, g2, r). (g1, g2, r @ collapse_ws ?v)) (grade_match ?u)" .
  have "grade_match s = grade_match (?u @ ?v)" by simp
  also have "\<dots> = map_option (\<lambda>(g1, g2, r). (g1, g2, r @ ?v)) (grade_match ?u)"
    by (rule grade_match_app[OF at_boundary_dropWhile])
  finally have 2: "grade_match s = map_option (\<lambda>(g1, g2, r). (g1, g2, r @ ?v)) (grade_match ?u)" .
  show ?thesis
  proof (cases "grade_match ?u")
    case None
    with 1 2 show ?thesis by simp
  next
    case (Some x)
    obtain g1 g2 r where x: "x = (g1, g2, r)" by (cases x)
    from grade_match_Some[OF Some[unfolded x]] have "?u = g1 @ g2 @ r" by simp
    then have "set r \<subseteq> set ?u" by (metis Un_upper2 set_append subset_trans)
    with u have "\<forall>c\<in>set r. \<not> is_space c" by blast
    then have "collapse_ws (r @ ?v) = r @ collapse_ws ?v" by (rule collapse_nospace_app)
    with 1 2 Some x show ?thesis by simp
  qed
qed

lemma lstrip_grade_sub:
  "dropWhile is_space (grade_sub False s) = grade_sub False (dropWhile is_space s)"
proof (induction s)
  case Nil
  then show ?case by simp
next
  case (Cons c cs)
  show ?case
  proof (cases "is_space c")
    case True
    with Cons show ?thesis
      by (simp add: grade_sub_step grade_match_nonword space_not_word)
  next
    case False
    with grade_sub_hd[of "c # cs" False]
    have "dropWhile is_space (grade_sub False (c # cs)) = grade_sub False (c # cs)"
      by (intro lstrip_fix) simp
    with False show ?thesis by simp
  qed
qed

lemma grade_sub_collapse: "grade_sub pw (collapse_ws s) = collapse_ws (grade_sub pw s)"
proof (induction s arbitrary: pw rule: length_induct)
  case (1 s)
  show ?case
  proof (cases s)
    case Nil
    then show ?thesis by simp
  next
    case (Cons c cs)
    show ?thesis
    proof (cases "is_space c")
      case True
      have "length (dropWhile is_space cs) < length s"
        using Cons length_dropWhile_le[of is_space cs] by simp
      with 1 have ih: "grade_sub False (collapse_ws (dropWhile is_space cs))
          = collapse_ws (grade_sub False (dropWhile is_space cs))" by blast
      from True have nw: "\<not> is_word c" by (rule space_not_word)
      have "grade_sub pw (collapse_ws s)
          = CHR '' '' # grade_sub False (collapse_ws (dropWhile is_space cs))"
        using True Cons
        by (simp add: grade_sub_step grade_match_nonword space_not_word[OF is_space_space])
      also have "\<dots> = collapse_ws (c # grade_sub False cs)"
        using True ih by (simp add: lstrip_grade_sub)
      also have "\<dots> = collapse_ws (grade_sub pw s)"
        using nw Cons by (simp add: grade_sub_step grade_match_nonword)
      finally show ?thesis .
    next
      case False
      then have cc: "collapse_ws (c # cs) = c # collapse_ws cs" by simp
      have gm: "grade_match (c # collapse_ws cs)
          = map_option (\<lambda>(g1, g2, r). (g1, g2, collapse_ws r)) (grade_match (c # cs))"
        using grade_match_collapse[of "c # cs"] cc by simp
      show ?thesis
      proof (cases "pw \<or> grade_match (c # cs) = None")
        case True
        with gm have "pw \<or> grade_match (c # collapse_ws cs) = None" by auto
        moreover from 1 Cons
        have "grade_sub (is_word c) (collapse_ws cs) = collapse_ws (grade_sub (is_word c) cs)"
          by simp
        ultimately show ?thesis using True False Cons cc by (simp add: grade_sub_step)
      next
        case F2: False
        then obtain g1 g2 rest where m: "grade_match (c # cs) = Some (g1, g2, rest)" and "\<not> pw"
          by auto
        from grade_match_length[OF m] 1 Cons
        have ih: "grade_sub True (collapse_ws rest) = collapse_ws (grade_sub True rest)" by simp
        from grade_match_Some[OF m]
        have g1: "upper g1 \<in> set [''P'', ''D'', ''G'', ''SB'', ''LSC'', ''NO'']"
          and g2: "list_all is_digit g2" by simp_all
        from cats_no_digit[OF g1] g2
        have ns: "\<forall>c\<in>set (upper g1 @ ''-'' @ g2). \<not> is_space c"
          using space_not_digit by (auto simp: list_all_iff)
        from gm m have "grade_match (c # collapse_ws cs) = Some (g1, g2, collapse_ws rest)"
          by simp
        with \<open>\<not> pw\<close> have "grade_sub pw (c # collapse_ws cs)
            = upper g1 @ ''-'' @ g2 @ grade_sub True (collapse_ws rest)"
          by (rule grade_sub_match)
        also have "\<dots> = (upper g1 @ ''-'' @ g2) @ collapse_ws (grade_sub True rest)"
          using ih by simp
        also have "\<dots> = collapse_ws ((upper g1 @ ''-'' @ g2) @ grade_sub True rest)"
          by (rule collapse_nospace_app[OF ns, symmetric])
        also have "\<dots> = collapse_ws (grade_sub pw (c # cs))"
          using grade_sub_match[OF \<open>\<not> pw\<close> m] by simp
        finally show ?thesis using Cons cc by simp
      qed
    qed
  qed
qed

lemma grade_sub_rstrip: "rstrip (grade_sub False y) = grade_sub False (rstrip y)"
proof -
  obtain ws where ws: "list_all is_space ws" and y: "y = rstrip y @ ws"
    using rstrip_split[of y] by blast
  let ?z = "rstrip y"
  have "grade_sub False y = grade_sub False (?z @ ws)" using y by simp
  also have "\<dots> = grade_sub False ?z @ grade_sub False ws"
    by (rule grade_sub_app[OF spaces_boundary[OF ws]])
  also have "\<dots> = grade_sub False ?z @ ws"
    by (simp add: grade_sub_no_digit[OF spaces_no_digit[OF ws]])
  finally have "rstrip (grade_sub False y) = rstrip (grade_sub False ?z)"
    by (simp add: rstrip_app_spaces[OF ws])
  also have "\<dots> = grade_sub False ?z"
  proof (rule rstrip_fix)
    show "grade_sub False ?z = [] \<or> \<not> is_space (last (grade_sub False ?z))"
      using rstrip_last[of y] grade_sub_last[of ?z False] by (cases "?z = []") auto
  qed
  finally show ?thesis .
qed

lemma grade_sub_strip: "grade_sub False (strip s) = strip (grade_sub False s)"
  by (simp add: strip_rstrip lstrip_grade_sub grade_sub_rstrip)

lemma space_upper_comp: "is_space \<circ> upper_char = is_space"
  by (simp add: fun_eq_iff)

lemma upper_lstrip: "upper (dropWhile is_space s) = dropWhile is_space (upper s)"
  by (simp add: upper_def dropWhile_map space_upper_comp)

lemma upper_strip: "upper (strip s) = strip (upper s)"
  by (simp add: strip_def upper_def dropWhile_map space_upper_comp rev_map)

lemma upper_collapse: "upper (collapse_ws s) = collapse_ws (upper s)"
  by (induction s rule: collapse_ws.induct) (simp_all add: upper_lstrip)

lemma collapse_hd:
  "x = [] \<or> \<not> is_space (hd x) \<Longrightarrow> collapse_ws x = [] \<or> \<not> is_space (hd (collapse_ws x))"
  by (cases x) auto

lemma lstrip_collapse:
  "dropWhile is_space (collapse_ws s) = collapse_ws (dropWhile is_space s)"
proof (cases s)
  case Nil
  then show ?thesis by simp
next
  case (Cons c cs)
  show ?thesis
  proof (cases "is_space c")
    case True
    let ?d = "dropWhile is_space cs"
    have "collapse_ws ?d = [] \<or> \<not> is_space (hd (collapse_ws ?d))"
      by (rule collapse_hd[OF lstrip_hd])
    then have "dropWhile is_space (collapse_ws ?d) = collapse_ws ?d" by (rule lstrip_fix)
    with True Cons show ?thesis by simp
  next
    case False
    with Cons show ?thesis by simp
  qed
qed

lemma collapse_idem: "collapse_ws (collapse_ws s) = collapse_ws s"
  by (induction s rule: collapse_ws.induct) (simp_all add: lstrip_collapse)

lemma collapse_app_spaces:
  "z = [] \<or> \<not> is_space (last z) \<Longrightarrow> list_all is_space ws \<Longrightarrow>
   collapse_ws (z @ ws) = collapse_ws z @ (if ws = [] then [] else '' '')"
proof (induction z rule: collapse_ws.induct)
  case 1
  then show ?case
    by (cases ws) (auto simp: list_all_iff dropWhile_eq_Nil_conv[THEN iffD2])
next
  case (2 c cs)
  show ?case
  proof (cases "is_space c")
    case True
    with "2.prems" have cs: "cs \<noteq> []" "\<not> is_space (last cs)" by (auto split: if_splits)
    then have lc: "last cs \<in> set cs" by simp
    with cs have ex: "\<not> (\<forall>x\<in>set cs. is_space x)" by blast
    from lc cs(2) have d: "dropWhile is_space (cs @ ws) = dropWhile is_space cs @ ws"
      by (rule dropWhile_append1)
    from ex have dne: "dropWhile is_space cs \<noteq> []" by (simp add: dropWhile_eq_Nil_conv)
    have "last (dropWhile is_space cs) = last cs"
      by (metis dne append_Nil2 last_appendR takeWhile_dropWhile_id)
    with cs dne "2.IH"(1)[OF True] "2.prems"(2)
    have "collapse_ws (dropWhile is_space cs @ ws)
        = collapse_ws (dropWhile is_space cs) @ (if ws = [] then [] else '' '')" by simp
    with True d show ?thesis by simp
  next
    case False
    with "2.prems" "2.IH"(2)[OF False] show ?thesis by (cases cs) (auto split: if_splits)
  qed
qed

lemma collapse_last:
  "z \<noteq> [] \<Longrightarrow> \<not> is_space (last z) \<Longrightarrow>
   collapse_ws z \<noteq> [] \<and> last (collapse_ws z) = last z"
proof (induction z rule: collapse_ws.induct)
  case 1
  then show ?case by simp
next
  case (2 c cs)
  show ?case
  proof (cases "is_space c")
    case True
    with "2.prems" have cs: "cs \<noteq> []" "\<not> is_space (last cs)" by (auto split: if_splits)
    then have "last cs \<in> set cs" by simp
    with cs have dne: "dropWhile is_space cs \<noteq> []" by (auto simp: dropWhile_eq_Nil_conv)
    have "last (dropWhile is_space cs) = last cs"
      by (metis dne append_Nil2 last_appendR takeWhile_dropWhile_id)
    with cs dne "2.IH"(1)[OF True] True show ?thesis by simp
  next
    case False
    with "2.prems" "2.IH"(2)[OF False] show ?thesis by (cases cs) (auto split: if_splits)
  qed
qed

lemma rstrip_collapse: "rstrip (collapse_ws y) = collapse_ws (rstrip y)"
proof -
  obtain ws where ws: "list_all is_space ws" and y: "y = rstrip y @ ws"
    using rstrip_split[of y] by blast
  let ?z = "rstrip y"
  have "collapse_ws y = collapse_ws (?z @ ws)" using y by simp
  also have "\<dots> = collapse_ws ?z @ (if ws = [] then [] else '' '')"
    by (rule collapse_app_spaces[OF rstrip_last ws])
  finally have "rstrip (collapse_ws y) = rstrip (collapse_ws ?z)"
    using rstrip_app_spaces[of "'' ''" "collapse_ws ?z"] by simp
  also have "\<dots> = collapse_ws ?z"
  proof (rule rstrip_fix)
    show "collapse_ws ?z = [] \<or> \<not> is_space (last (collapse_ws ?z))"
      using rstrip_last[of y] collapse_last[of ?z] by (cases "?z = []") auto
  qed
  finally show ?thesis .
qed

lemma strip_collapse: "strip (collapse_ws s) = collapse_ws (strip s)"
  by (simp add: strip_rstrip lstrip_collapse rstrip_collapse)

lemma rstrip_hd: "rstrip y \<noteq> [] \<Longrightarrow> hd (rstrip y) = hd y"
  using rstrip_split[of y] by (metis hd_append2)

lemma strip_idem: "strip (strip s) = strip s"
proof -
  let ?y = "dropWhile is_space s"
  have "rstrip ?y = [] \<or> \<not> is_space (hd (rstrip ?y))"
  proof (cases "?y = []")
    case True
    then have "rstrip ?y = []" by (simp only: rstrip_Nil)
    then show ?thesis by (rule disjI1)
  next
    case False
    with lstrip_hd[of s] have "\<not> is_space (hd ?y)" by blast
    with rstrip_hd[of ?y] show ?thesis by (cases "rstrip ?y = []") auto
  qed
  then have "dropWhile is_space (rstrip ?y) = rstrip ?y" by (rule lstrip_fix)
  moreover have "rstrip (rstrip ?y) = rstrip ?y" by (rule rstrip_fix[OF rstrip_last])
  ultimately show ?thesis by (simp add: strip_rstrip)
qed

lemma normalize_text_idem: "normalize_text (normalize_text x) = normalize_text x"
proof -
  let ?g = "grade_sub False x"
  have "grade_sub False (strip (collapse_ws (upper ?g))) = strip (collapse_ws (upper ?g))"
    by (simp add: grade_sub_strip grade_sub_collapse grade_sub_upper grade_sub_idem)
  moreover have "upper (strip (collapse_ws (upper ?g))) = strip (collapse_ws (upper ?g))"
    by (simp add: upper_strip upper_collapse)
  moreover have "collapse_ws (strip (collapse_ws (upper ?g))) = strip (collapse_ws (upper ?g))"
    by (simp add: strip_collapse[symmetric] collapse_idem)
  ultimately show ?thesis
    by (simp add: normalize_text_def nfkd_def fold_dashes_def strip_idem)
qed

subsection \<open>Excluded grades as tokens\<close>

lemma at_boundary_rev: "at_boundary (rev pre) \<longleftrightarrow> pre = [] \<or> \<not> is_word (last pre)"
  by (cases pre rule: rev_cases) auto

lemma search_b_iff:
  "search_b m pw s \<longleftrightarrow>
   (\<exists>pre post. s = pre @ post \<and> (if pre = [] then \<not> pw else \<not> is_word (last pre)) \<and> m post
      \<and> post \<noteq> [])"
proof (induction s arbitrary: pw)
  case Nil
  then show ?case by simp
next
  case (Cons c cs)
  show ?case
  proof
    assume "search_b m pw (c # cs)"
    then consider "\<not> pw" "m (c # cs)" | "search_b m (is_word c) cs" by auto
    then show "\<exists>pre post. c # cs = pre @ post
        \<and> (if pre = [] then \<not> pw else \<not> is_word (last pre)) \<and> m post \<and> post \<noteq> []"
    proof cases
      case 1
      then show ?thesis by (intro exI[of _ "[]"] exI[of _ "c # cs"]) simp
    next
      case 2
      with Cons.IH[of "is_word c"] obtain pre post where
        p: "cs = pre @ post" "if pre = [] then \<not> is_word c else \<not> is_word (last pre)"
           "m post" "post \<noteq> []" by blast
      then show ?thesis by (intro exI[of _ "c # pre"] exI[of _ post]) (auto split: if_splits)
    qed
  next
    assume "\<exists>pre post. c # cs = pre @ post
        \<and> (if pre = [] then \<not> pw else \<not> is_word (last pre)) \<and> m post \<and> post \<noteq> []"
    then obtain pre post where
      p: "c # cs = pre @ post" "if pre = [] then \<not> pw else \<not> is_word (last pre)"
         "m post" "post \<noteq> []" by blast
    show "search_b m pw (c # cs)"
    proof (cases pre)
      case Nil
      with p have "post = c # cs" "\<not> pw" by simp_all
      with p(3) show ?thesis by simp
    next
      case (Cons x pre')
      with p have "cs = pre' @ post"
        "if pre' = [] then \<not> is_word c else \<not> is_word (last pre')"
        by (auto split: if_splits)
      with p(3,4) Cons.IH[of "is_word c"] have "search_b m (is_word c) cs" by blast
      then show ?thesis by simp
    qed
  qed
qed

lemma cs_prefix_iff: "cs_prefix l s = Some r \<longleftrightarrow> s = l @ r"
  by (induction l s rule: cs_prefix.induct) auto

lemma cs_prefix_case:
  "(case cs_prefix l s of None \<Rightarrow> False | Some r \<Rightarrow> P r) \<longleftrightarrow> (\<exists>r. s = l @ r \<and> P r)"
  by (cases "cs_prefix l s") (auto simp: cs_prefix_iff[symmetric])

lemma one_of_b_iff:
  "one_of_b cls r \<longleftrightarrow> (\<exists>d rest. r = d # rest \<and> d \<in> set cls \<and> at_boundary rest)"
  by (cases r) (auto simp: one_of_b_def)

lemma pat_LSC_iff:
  "pat_LSC s \<longleftrightarrow>
   (\<exists>ds rest. s = ''LSC-'' @ ds @ rest \<and> (length ds = 1 \<or> length ds = 2)
      \<and> list_all is_digit ds \<and> at_boundary rest)"
proof -
  have tail: "(case r of [] \<Rightarrow> False | [d1] \<Rightarrow> is_digit d1
        | d1 # d2 # r' \<Rightarrow> is_digit d1 \<and> ((is_digit d2 \<and> at_boundary r') \<or> at_boundary (d2 # r')))
      \<longleftrightarrow> (\<exists>ds rest. r = ds @ rest \<and> (length ds = 1 \<or> length ds = 2)
            \<and> list_all is_digit ds \<and> at_boundary rest)" (is "?L r \<longleftrightarrow> ?R r") for r
  proof
    assume l: "?L r"
    show "?R r"
    proof (cases r)
      case Nil
      with l show ?thesis by simp
    next
      case (Cons d1 r1)
      show ?thesis
      proof (cases r1)
        case Nil
        with l Cons show ?thesis by (intro exI[of _ "[d1]"] exI[of _ "[]"]) simp
      next
        case c2: (Cons d2 r')
        with l Cons consider "is_digit d1" "is_digit d2" "at_boundary r'"
          | "is_digit d1" "at_boundary (d2 # r')" by auto
        then show ?thesis
        proof cases
          case 1
          with Cons c2 show ?thesis by (intro exI[of _ "[d1, d2]"] exI[of _ r']) simp
        next
          case 2
          with Cons c2 show ?thesis by (intro exI[of _ "[d1]"] exI[of _ "d2 # r'"]) simp
        qed
      qed
    qed
  next
    assume "?R r"
    then obtain ds rest where r: "r = ds @ rest" "length ds = 1 \<or> length ds = 2"
      "list_all is_digit ds" "at_boundary rest" by blast
    from r(2) show "?L r"
    proof
      assume "length ds = 1"
      then obtain d1 where "ds = [d1]" by (cases ds) auto
      with r show ?thesis by (cases rest) auto
    next
      assume "length ds = 2"
      then obtain d1 d2 where "ds = [d1, d2]"
        by (cases ds; simp) (metis length_0_conv length_Suc_conv)
      with r show ?thesis by auto
    qed
  qed
  show ?thesis
    unfolding pat_LSC_def by (cases "cs_prefix ''LSC-'' s") (auto simp: cs_prefix_iff tail)
qed

lemma excluded_tokens_iff:
  "tok \<in> excluded_tokens \<longleftrightarrow>
   (\<exists>d. tok = ''G-'' @ [d] \<and> d \<in> set ''1234567'')
   \<or> (\<exists>d. tok = ''NO'' @ [d] \<and> d \<in> set ''ABCD'')
   \<or> (\<exists>d. tok = ''SB-'' @ [d] \<and> d \<in> set ''1234'')
   \<or> (\<exists>ds. tok = ''LSC-'' @ ds \<and> (length ds = 1 \<or> length ds = 2) \<and> list_all is_digit ds)"
  unfolding excluded_tokens_def Un_iff mem_Collect_eq by blast

lemma pat_G_iff:
  "pat_G post \<longleftrightarrow> (\<exists>d rest. post = (''G-'' @ [d]) @ rest \<and> d \<in> set ''1234567'' \<and> at_boundary rest)"
  unfolding pat_G_def cs_prefix_case one_of_b_iff by auto

lemma pat_NO_iff:
  "pat_NO post \<longleftrightarrow> (\<exists>d rest. post = (''NO'' @ [d]) @ rest \<and> d \<in> set ''ABCD'' \<and> at_boundary rest)"
  unfolding pat_NO_def cs_prefix_case one_of_b_iff by auto

lemma pat_SB_iff:
  "pat_SB post \<longleftrightarrow> (\<exists>d rest. post = (''SB-'' @ [d]) @ rest \<and> d \<in> set ''1234'' \<and> at_boundary rest)"
  unfolding pat_SB_def cs_prefix_case one_of_b_iff by auto

lemma pat_lit_iff: "pat_lit l post \<longleftrightarrow> (\<exists>rest. post = l @ rest \<and> at_boundary rest)"
  unfolding pat_lit_def cs_prefix_case by simp

lemma pat_lits_NO:
  "pat_lit ''NOA'' post \<or> pat_lit ''NOB'' post \<or> pat_lit ''NOC'' post \<or> pat_lit ''NOD'' post
   \<Longrightarrow> pat_NO post"
  unfolding pat_lit_iff pat_NO_iff by auto

lemma pat_LSC_iff2:
  "pat_LSC post \<longleftrightarrow>
   (\<exists>ds rest. post = (''LSC-'' @ ds) @ rest \<and> (length ds = 1 \<or> length ds = 2)
      \<and> list_all is_digit ds \<and> at_boundary rest)"
  unfolding pat_LSC_iff by simp

lemma tok_one:
  "(\<exists>d rest. post = (l @ [d]) @ rest \<and> P d \<and> Q rest) \<longleftrightarrow>
   (\<exists>tok rest. (\<exists>d. tok = l @ [d] \<and> P d) \<and> post = tok @ rest \<and> Q rest)"
  by blast

lemma tok_many:
  "(\<exists>ds rest. post = (l @ ds) @ rest \<and> P ds \<and> R ds \<and> Q rest) \<longleftrightarrow>
   (\<exists>tok rest. (\<exists>ds. tok = l @ ds \<and> P ds \<and> R ds) \<and> post = tok @ rest \<and> Q rest)"
  by blast

lemma ex_disj4:
  "(\<exists>tok rest. (A tok \<or> B tok \<or> C tok \<or> D tok) \<and> X tok rest) \<longleftrightarrow>
   (\<exists>tok rest. A tok \<and> X tok rest) \<or> (\<exists>tok rest. B tok \<and> X tok rest)
   \<or> (\<exists>tok rest. C tok \<and> X tok rest) \<or> (\<exists>tok rest. D tok \<and> X tok rest)"
  by blast

lemma excluded_pattern_iff:
  "list_ex (\<lambda>pat. pat post) EXCLUDED_GRADE_PATTERNS \<longleftrightarrow>
   (\<exists>tok rest. tok \<in> excluded_tokens \<and> post = tok @ rest \<and> at_boundary rest)"
  (is "?L \<longleftrightarrow> ?R")
proof -
  have "?L \<longleftrightarrow> pat_G post \<or> pat_NO post \<or> pat_lit ''NOA'' post \<or> pat_lit ''NOB'' post
      \<or> pat_lit ''NOC'' post \<or> pat_lit ''NOD'' post \<or> pat_SB post \<or> pat_LSC post"
    by (simp add: EXCLUDED_GRADE_PATTERNS_def)
  also have "\<dots> \<longleftrightarrow> pat_G post \<or> pat_NO post \<or> pat_SB post \<or> pat_LSC post"
    using pat_lits_NO[of post] by blast
  also have "\<dots> \<longleftrightarrow> ?R"
    unfolding pat_G_iff pat_NO_iff pat_SB_iff pat_LSC_iff2 excluded_tokens_iff
      tok_one tok_many ex_disj4 ..
  finally show ?thesis .
qed

lemma excluded_tokens_nonempty: "tok \<in> excluded_tokens \<Longrightarrow> tok \<noteq> []"
  unfolding excluded_tokens_iff by auto

lemma search_b_False_iff:
  "search_b m False s \<longleftrightarrow>
   (\<exists>pre post. s = pre @ post \<and> at_boundary (rev pre) \<and> post \<noteq> [] \<and> m post)"
proof -
  have "(if pre = [] then \<not> False else \<not> is_word (last pre)) \<longleftrightarrow> at_boundary (rev pre)"
    for pre by (simp add: at_boundary_rev)
  then show ?thesis unfolding search_b_iff[of m False s] by blast
qed

lemma search_excluded_iff:
  "list_ex (\<lambda>pat. search_b pat False s) EXCLUDED_GRADE_PATTERNS \<longleftrightarrow>
   (\<exists>tok. tok \<in> excluded_tokens \<and> occurs_as_word tok s)"
  (is "?L \<longleftrightarrow> ?R")
proof
  assume ?L
  then obtain pat where pat: "pat \<in> set EXCLUDED_GRADE_PATTERNS" "search_b pat False s"
    unfolding list_ex_iff by blast
  from pat(2) obtain pre post where
    p: "s = pre @ post" "at_boundary (rev pre)" "pat post"
    unfolding search_b_False_iff by blast
  from pat(1) p(3) have "list_ex (\<lambda>pat. pat post) EXCLUDED_GRADE_PATTERNS"
    unfolding list_ex_iff by blast
  then obtain tok rest where "tok \<in> excluded_tokens" "post = tok @ rest" "at_boundary rest"
    unfolding excluded_pattern_iff by blast
  with p(1,2) show ?R unfolding occurs_as_word_def by blast
next
  assume ?R
  then obtain tok pre rest where
    t: "tok \<in> excluded_tokens" "s = pre @ tok @ rest" "at_boundary (rev pre)" "at_boundary rest"
    unfolding occurs_as_word_def by blast
  then have "list_ex (\<lambda>pat. pat (tok @ rest)) EXCLUDED_GRADE_PATTERNS"
    unfolding excluded_pattern_iff by blast
  then obtain pat where pat: "pat \<in> set EXCLUDED_GRADE_PATTERNS" "pat (tok @ rest)"
    unfolding list_ex_iff by blast
  from excluded_tokens_nonempty[OF t(1)] have "tok @ rest \<noteq> []" by simp
  with t(2,3) pat(2) have "search_b pat False s"
    unfolding search_b_False_iff by blast
  with pat(1) show ?L unfolding list_ex_iff by blast
qed

lemma is_excluded_grade_iff:
  "is_excluded_grade t \<longleftrightarrow>
   (\<exists>tok. tok \<in> excluded_tokens \<and> occurs_as_word tok (normalize_text t))"
  unfolding is_excluded_grade_def by (rule search_excluded_iff)

subsection \<open>Included grades as substrings\<close>

lemma prefix_collapse:
  "\<forall>c\<in>set g. \<not> is_space c \<Longrightarrow> prefix g (collapse_ws x) \<longleftrightarrow> prefix g x"
proof (induction x arbitrary: g)
  case Nil
  then show ?case by simp
next
  case (Cons c cs)
  show ?case
  proof (cases g)
    case Nil
    then show ?thesis by simp
  next
    case g: (Cons a g')
    with Cons.prems have a: "\<not> is_space a" and g': "\<forall>c\<in>set g'. \<not> is_space c" by simp_all
    show ?thesis
    proof (cases "is_space c")
      case True
      with a have "a \<noteq> c" "a \<noteq> CHR '' ''" by auto
      with True g show ?thesis by simp
    next
      case False
      with g Cons.IH[OF g'] show ?thesis by simp
    qed
  qed
qed

lemma sublist_lstrip:
  assumes "g \<noteq> []" "\<forall>c\<in>set g. \<not> is_space c"
  shows "sublist g (dropWhile is_space x) \<longleftrightarrow> sublist g x"
proof (induction x)
  case Nil
  then show ?case by simp
next
  case (Cons c cs)
  show ?case
  proof (cases "is_space c")
    case True
    from assms obtain a g' where g: "g = a # g'" "\<not> is_space a" by (cases g) auto
    with True have "\<not> prefix g (c # cs)" by auto
    with True Cons show ?thesis by (simp add: sublist_Cons_right)
  next
    case False
    then show ?thesis by simp
  qed
qed

lemma sublist_collapse:
  assumes "g \<noteq> []" "\<forall>c\<in>set g. \<not> is_space c"
  shows "sublist g (collapse_ws x) \<longleftrightarrow> sublist g x"
proof (induction x rule: collapse_ws.induct)
  case 1
  then show ?case by simp
next
  case (2 c cs)
  from assms obtain a g' where g: "g = a # g'" "\<not> is_space a" by (cases g) auto
  show ?case
  proof (cases "is_space c")
    case True
    with g have np: "\<not> prefix g (c # cs)" "\<not> prefix g (CHR '' '' # collapse_ws (dropWhile is_space cs))"
      by auto
    have "sublist g (collapse_ws (c # cs)) \<longleftrightarrow> sublist g (collapse_ws (dropWhile is_space cs))"
      using True np(2) by (simp add: sublist_Cons_right)
    also have "\<dots> \<longleftrightarrow> sublist g (dropWhile is_space cs)" by (rule "2.IH"(1)[OF True])
    also have "\<dots> \<longleftrightarrow> sublist g cs" by (rule sublist_lstrip[OF assms])
    also have "\<dots> \<longleftrightarrow> sublist g (c # cs)" using np(1) by (simp add: sublist_Cons_right)
    finally show ?thesis .
  next
    case False
    have "prefix g (c # collapse_ws cs) \<longleftrightarrow> prefix g (c # cs)"
      using prefix_collapse[OF assms(2), of "c # cs"] False by simp
    with False "2.IH"(2)[OF False] show ?thesis by (simp add: sublist_Cons_right)
  qed
qed

lemma sublist_strip:
  assumes "g \<noteq> []" "\<forall>c\<in>set g. \<not> is_space c"
  shows "sublist g (strip x) \<longleftrightarrow> sublist g x"
proof -
  from assms have r: "rev g \<noteq> []" "\<forall>c\<in>set (rev g). \<not> is_space c" by simp_all
  have "sublist g (strip x) \<longleftrightarrow> sublist (rev g) (dropWhile is_space (rev (dropWhile is_space x)))"
    unfolding strip_def by (subst sublist_rev[symmetric]) simp
  also have "\<dots> \<longleftrightarrow> sublist (rev g) (rev (dropWhile is_space x))"
    by (rule sublist_lstrip[OF r])
  also have "\<dots> \<longleftrightarrow> sublist g (dropWhile is_space x)" by (rule sublist_rev)
  also have "\<dots> \<longleftrightarrow> sublist g x" by (rule sublist_lstrip[OF assms])
  finally show ?thesis .
qed

lemma sublist_normalize:
  assumes "g \<noteq> []" "\<forall>c\<in>set g. \<not> is_space c"
  shows "sublist g (normalize_text x) \<longleftrightarrow> sublist g (upper (grade_sub False x))"
  unfolding normalize_text_def nfkd_def fold_dashes_def
  by (simp only: sublist_strip[OF assms] sublist_collapse[OF assms])

lemma sublist_left_sep:
  assumes "A = [] \<or> \<not> is_word (last A)" "is_word l" "R = [] \<or> hd R \<noteq> d"
  shows "sublist [l, h, d] (A @ R) \<longleftrightarrow> sublist [l, h, d] A \<or> sublist [l, h, d] R"
  using assms(1)
proof (induction A)
  case Nil
  then show ?case by simp
next
  case (Cons a A')
  have ih: "sublist [l, h, d] (A' @ R) \<longleftrightarrow> sublist [l, h, d] A' \<or> sublist [l, h, d] R"
    using Cons by (cases "A' = []") auto
  have "prefix [l, h, d] (a # A' @ R) \<longleftrightarrow> prefix [l, h, d] (a # A')"
  proof (cases A')
    case Nil
    with Cons.prems assms(2) have "l \<noteq> a" by auto
    with Nil show ?thesis by simp
  next
    case c1: (Cons b A'')
    show ?thesis
    proof (cases A'')
      case Nil
      with c1 assms(3) show ?thesis by (cases R) auto
    next
      case (Cons c A''')
      with c1 show ?thesis by simp
    qed
  qed
  with ih show ?case by (auto simp: sublist_Cons_right)
qed

lemma sublist_P4_sep:
  assumes "at_boundary B" "is_word l" "\<not> is_digit l"
  shows "sublist [l, h, d] (''P-4'' @ B) \<longleftrightarrow> [l, h, d] = ''P-4'' \<or> sublist [l, h, d] B"
proof -
  from assms(2) have l1: "l \<noteq> CHR ''-''" by auto
  from assms(3) have l2: "l \<noteq> CHR ''4''" by (auto simp: is_digit_def code_def)
  have "\<not> prefix [l, h, d] (CHR ''4'' # B)" using l2 by simp
  moreover have "\<not> prefix [l, h, d] (CHR ''-'' # CHR ''4'' # B)" using l1 by simp
  moreover have "prefix [l, h, d] (CHR ''P'' # CHR ''-'' # CHR ''4'' # B) \<longleftrightarrow> [l, h, d] = ''P-4''"
    by auto
  ultimately show ?thesis by (simp only: append_Cons append_Nil sublist_Cons_right) blast
qed

lemma grade_letters:
  "is_word (CHR ''P'')" "\<not> is_digit (CHR ''P'')" "is_word (CHR ''D'')" "\<not> is_digit (CHR ''D'')"
  "is_digit (CHR ''1'')" "is_digit (CHR ''2'')" "is_digit (CHR ''3'')" "is_digit (CHR ''4'')"
  "is_digit (CHR ''5'')"
  by (simp_all add: is_word_def is_digit_def is_upper_def code_def)

lemma included_grade_shape:
  assumes "g \<in> set INCLUDED_GRADES"
  shows "\<exists>l d. g = [l, CHR ''-'', d] \<and> is_word l \<and> \<not> is_digit l \<and> is_digit d"
proof -
  from assms have "g = ''P-1'' \<or> g = ''P-2'' \<or> g = ''P-3'' \<or> g = ''P-4'' \<or> g = ''P-5''
      \<or> g = ''D-1'' \<or> g = ''D-2''"
    by (simp add: INCLUDED_GRADES_def)
  then show ?thesis
    by (elim disjE) (simp_all add: grade_letters)
qed

lemma included_grade_nospace:
  assumes "g \<in> set INCLUDED_GRADES"
  shows "g \<noteq> [] \<and> (\<forall>c\<in>set g. \<not> is_space c)"
proof -
  from included_grade_shape[OF assms] obtain l d where
    g: "g = [l, CHR ''-'', d]" "is_word l" "is_digit d" by blast
  then show ?thesis using space_not_word[of l] space_not_digit[of d] by auto
qed

lemma detect_grades_iff:
  "g \<in> detect_grades t \<longleftrightarrow> g \<in> set INCLUDED_GRADES \<and> sublist g (upper (grade_sub False t))"
  using included_grade_nospace[of g] sublist_normalize[of g t]
  by (auto simp: detect_grades_def)

lemma grade_match_P4: "grade_match ''P4'' = Some (''P'', ''4'', [])"
  by code_simp

lemma grade_sub_P4:
  assumes "at_boundary (rev pre)" "at_boundary post"
  shows "grade_sub False (pre @ ''P4'' @ post)
       = grade_sub False pre @ ''P-4'' @ grade_sub False post"
proof -
  have "grade_match (''P4'' @ post) = Some (''P'', ''4'', post)"
    using grade_match_app[OF assms(2), of "''P4''"] by (simp add: grade_match_P4)
  then have "grade_sub False (''P4'' @ post) = upper ''P'' @ ''-'' @ ''4'' @ grade_sub True post"
    by (simp add: grade_sub_match)
  moreover have "upper ''P'' = ''P''" by code_simp
  ultimately have m: "grade_sub False (''P4'' @ post) = ''P-4'' @ grade_sub False post"
    using grade_sub_boundary[OF assms(2), of True] by simp
  show ?thesis
  proof (cases "pre = []")
    case True
    with m show ?thesis by simp
  next
    case False
    with assms(1) have "\<not> is_word (last pre)" by (cases pre rule: rev_cases) auto
    with False m show ?thesis by (simp add: grade_sub_app2)
  qed
qed

lemma last_upper: "x \<noteq> [] \<Longrightarrow> last (upper x) = upper_char (last x)"
  by (simp add: upper_def last_map)

lemma detect_grades_P4:
  assumes "at_boundary (rev pre)" "at_boundary post"
  shows "detect_grades (pre @ ''P4'' @ post)
       = {''P-4''} \<union> detect_grades pre \<union> detect_grades post"
proof -
  let ?A = "upper (grade_sub False pre)" and ?B = "upper (grade_sub False post)"
  have u: "upper (grade_sub False (pre @ ''P4'' @ post)) = ?A @ ''P-4'' @ ?B"
  proof -
    have "upper ''P-4'' = ''P-4''" by code_simp
    then have "upper (grade_sub False pre @ ''P-4'' @ grade_sub False post) = ?A @ ''P-4'' @ ?B"
      by (simp only: upper_append)
    then show ?thesis by (simp only: grade_sub_P4[OF assms])
  qed
  have A: "?A = [] \<or> \<not> is_word (last ?A)"
  proof (cases "pre = []")
    case True
    then show ?thesis by simp
  next
    case False
    with assms(1) have "\<not> is_word (last pre)" by (cases pre rule: rev_cases) auto
    with False grade_sub_last[of pre False] show ?thesis by (simp add: last_upper)
  qed
  have B: "at_boundary ?B" using assms(2) by (simp add: at_boundary_grade_sub)
  have P4: "''P-4'' \<in> set INCLUDED_GRADES" by (simp add: INCLUDED_GRADES_def)
  have "g \<in> detect_grades (pre @ ''P4'' @ post) \<longleftrightarrow>
        g \<in> {''P-4''} \<union> detect_grades pre \<union> detect_grades post" for g
  proof (cases "g \<in> set INCLUDED_GRADES")
    case False
    with P4 have "g \<noteq> ''P-4''" by blast
    with False show ?thesis by (simp only: Un_iff detect_grades_iff singleton_iff simp_thms)
  next
    case True
    from included_grade_shape[OF True] obtain l d where
      g: "g = [l, CHR ''-'', d]" "is_word l" "\<not> is_digit l" "is_digit d" by blast
    from g(4) have "d \<noteq> CHR ''P''" by (auto simp: is_digit_def code_def)
    then have R: "''P-4'' @ ?B = [] \<or> hd (''P-4'' @ ?B) \<noteq> d" by simp
    have s1: "sublist g (?A @ ''P-4'' @ ?B) \<longleftrightarrow> sublist g ?A \<or> sublist g (''P-4'' @ ?B)"
      unfolding g(1) by (rule sublist_left_sep[OF A g(2) R])
    have s2: "sublist g (''P-4'' @ ?B) \<longleftrightarrow> g = ''P-4'' \<or> sublist g ?B"
      unfolding g(1) by (rule sublist_P4_sep[OF B g(2,3)])
    have d0: "g \<in> detect_grades (pre @ ''P4'' @ post) \<longleftrightarrow> sublist g (?A @ ''P-4'' @ ?B)"
      by (simp only: detect_grades_iff u True simp_thms)
    have d1: "g \<in> detect_grades pre \<longleftrightarrow> sublist g ?A"
      by (simp only: detect_grades_iff True simp_thms)
    have d2: "g \<in> detect_grades post \<longleftrightarrow> sublist g ?B"
      by (simp only: detect_grades_iff True simp_thms)
    have d3: "g \<in> {''P-4''} \<longleftrightarrow> g = ''P-4''" by (simp only: singleton_iff)
    show ?thesis unfolding Un_iff d0 d1 d2 d3 s1 s2 by blast
  qed
  then show ?thesis by blast
qed

subsection \<open>Trailing whitespace\<close>

lemma strip_app_spaces:
  assumes "list_all is_space ws"
  shows "strip (x @ ws) = strip x"
proof (cases "\<forall>c\<in>set x. is_space c")
  case True
  with assms have "dropWhile is_space (x @ ws) = []" "dropWhile is_space x = []"
    by (simp_all add: list_all_iff dropWhile_eq_Nil_conv)
  then show ?thesis by (simp only: strip_rstrip)
next
  case False
  then obtain c where "c \<in> set x" "\<not> is_space c" by blast
  then have "dropWhile is_space (x @ ws) = dropWhile is_space x @ ws"
    by (rule dropWhile_append1)
  then show ?thesis by (simp add: strip_rstrip rstrip_app_spaces[OF assms])
qed

lemma upper_spaces: "list_all is_space ws \<Longrightarrow> list_all is_space (upper ws)"
  by (simp add: upper_def list_all_iff)

lemma normalize_app_spaces:
  assumes "list_all is_space ws"
  shows "normalize_text (s @ ws) = normalize_text s"
proof -
  have "grade_sub False (s @ ws) = grade_sub False s @ ws"
    using grade_sub_app[OF spaces_boundary[OF assms], of False s]
    by (simp add: grade_sub_no_digit[OF spaces_no_digit[OF assms]])
  then have "strip (collapse_ws (upper (grade_sub False (s @ ws))))
      = strip (collapse_ws (upper (grade_sub False s) @ upper ws))" by simp
  also have "\<dots> = collapse_ws (strip (upper (grade_sub False s) @ upper ws))"
    by (rule strip_collapse)
  also have "\<dots> = collapse_ws (strip (upper (grade_sub False s)))"
    by (simp only: strip_app_spaces[OF upper_spaces[OF assms]])
  also have "\<dots> = strip (collapse_ws (upper (grade_sub False s)))"
    by (rule strip_collapse[symmetric])
  finally show ?thesis by (simp add: normalize_text_def nfkd_def fold_dashes_def)
qed

lemma search_b_spaces:
  assumes "\<And>c cs. \<not> is_word c \<Longrightarrow> \<not> m (c # cs)" "list_all is_space ws"
  shows "\<not> search_b m pw ws"
  using assms(2)
proof (induction ws arbitrary: pw)
  case Nil
  then show ?case by simp
next
  case (Cons c cs)
  then have "\<not> is_word c" by (simp add: space_not_word)
  with assms(1) Cons show ?case by simp
qed

lemma search_b_app_spaces:
  assumes "\<And>x. m (x @ ws) = m x" "\<And>c cs. \<not> is_word c \<Longrightarrow> \<not> m (c # cs)"
    "list_all is_space ws"
  shows "search_b m pw (s @ ws) = search_b m pw s"
proof (induction s arbitrary: pw)
  case Nil
  have "\<not> search_b m pw ws" by (rule search_b_spaces[of m, OF assms(2) assms(3)])
  then show ?case by simp
next
  case (Cons c cs)
  have "m (c # cs @ ws) = m (c # cs)" using assms(1)[of "c # cs"] by simp
  with Cons show ?case by simp
qed

lemma ci_prefix_nonword:
  "p \<noteq> [] \<Longrightarrow> list_all is_upper p \<Longrightarrow> \<not> is_word c \<Longrightarrow> ci_prefix p (c # cs) = None"
  by (cases p) (auto dest: upper_letter_word)

lemma CONSULTAN_upper: "list_all is_upper ''CONSULTAN''"
  by (simp add: is_upper_def code_def)

lemma INTERN_upper: "list_all is_upper ''INTERN''" "list_all is_upper ''FELLOWSHIP''"
  by (simp_all add: is_upper_def code_def)

lemma is_consultant_app_spaces:
  assumes "list_all is_space ws"
  shows "is_consultant (s @ ws) = is_consultant s"
  unfolding is_consultant_def
proof (rule search_b_app_spaces[OF _ _ assms])
  show "pat_consultant (x @ ws) = pat_consultant x" for x
    unfolding pat_consultant_def
    by (simp add: ci_prefix_app[OF CONSULTAN_upper spaces_boundary[OF assms]])
  show "\<not> pat_consultant (c # cs)" if "\<not> is_word c" for c cs
    unfolding pat_consultant_def using ci_prefix_nonword[OF _ CONSULTAN_upper that] by simp
qed

lemma is_intern_app_spaces:
  assumes "list_all is_space ws"
  shows "is_intern_or_fellowship (s @ ws) = is_intern_or_fellowship s"
  unfolding is_intern_or_fellowship_def
proof (rule search_b_app_spaces[OF _ _ assms])
  note b = spaces_boundary[OF assms]
  show "pat_intern (x @ ws) = pat_intern x" for x
    unfolding pat_intern_def
    by (cases "ci_prefix ''INTERN'' x"; cases "ci_prefix ''FELLOWSHIP'' x")
       (simp_all add: ci_prefix_app[OF INTERN_upper(1) b] ci_prefix_app[OF INTERN_upper(2) b]
          at_boundary_app[OF b])
  show "\<not> pat_intern (c # cs)" if "\<not> is_word c" for c cs
    unfolding pat_intern_def
    using ci_prefix_nonword[OF _ INTERN_upper(1) that] ci_prefix_nonword[OF _ INTERN_upper(2) that]
    by simp
qed

lemma should_include_app_spaces:
  assumes "list_all is_space ws"
  shows "should_include_job (s @ ws) = should_include_job s"
  unfolding should_include_job_def is_excluded_grade_def detect_grades_def
  by (simp only: is_consultant_app_spaces[OF assms] is_intern_app_spaces[OF assms]
      normalize_app_spaces[OF assms])

lemma is_excluded_grade_normalized: "is_excluded_grade (normalize_text t) = is_excluded_grade t"
  by (simp add: is_excluded_grade_def normalize_text_idem)

lemma detect_grades_normalized: "detect_grades (normalize_text t) = detect_grades t"
  by (simp add: detect_grades_def normalize_text_idem)

section \<open>Lemmas on the run\<close>

lemma same_items_refl [simp]: "same_items st st"
  by (simp add: same_items_def)

lemma same_items_trans: "same_items st2 st1 \<Longrightarrow> same_items st1 st \<Longrightarrow> same_items st2 st"
  by (simp add: same_items_def)

lemma fetch_json_same: "same_items (snd (fetch_job_detail_json site ep st)) st"
  by (simp add: fetch_job_detail_json_def same_items_def is_listing_def)

lemma fetch_text_same: "same_items (snd (fetch_job_detail_text site url st)) st"
  by (simp add: fetch_job_detail_text_def same_items_def is_listing_def)

lemma check_detail_same: "same_items (snd (check_detail site ep url lt st)) st"
proof -
  obtain dj st1 where j: "fetch_job_detail_json site ep st = (dj, st1)" by fastforce
  obtain ht st2 where h: "fetch_job_detail_text site url st1 = (ht, st2)" by fastforce
  from j have s1: "same_items st1 st" using fetch_json_same[of site ep st] by simp
  from h have s2: "same_items st2 st1" using fetch_text_same[of site url st1] by simp
  from s1 s2 have s3: "same_items st2 st" by (rule same_items_trans[rotated])
  show ?thesis
    using s1 s3 by (simp add: check_detail_def j h Let_def split: option.splits)
qed

lemma process_posting_unfold:
  "process_posting site p st =
     (if job_url_of p \<in> existing_links st then skip_posting st
      else if is_consultant (listing_text p) then skip_posting st
      else if is_excluded_grade (listing_text p) then skip_posting st
      else if detect_grades (listing_text p) \<noteq> {} \<or> is_intern_or_fellowship (listing_text p)
        then include_posting (posting_item site p) (job_url_of p) st
      else if fst (check_detail site (p_externalPath p) (job_url_of p) (listing_text p) st)
        then include_posting (posting_item site p) (job_url_of p)
               (snd (check_detail site (p_externalPath p) (job_url_of p) (listing_text p) st))
      else skip_posting
               (snd (check_detail site (p_externalPath p) (job_url_of p) (listing_text p) st)))"
  unfolding process_posting_def Let_def title_of_def[symmetric] location_of_def[symmetric]
    job_url_of_def[symmetric] listing_text_def[symmetric] posting_item_def[symmetric]
    is_excluded_grade_normalized detect_grades_normalized
  by (simp split: prod.splits)

lemma process_posting_result:
  obtains st1 where "same_items st1 st"
    and "process_posting site p st = skip_posting st1
         \<or> (job_url_of p \<notin> existing_links st
            \<and> process_posting site p st = include_posting (posting_item site p) (job_url_of p) st1)"
proof -
  let ?c = "check_detail site (p_externalPath p) (job_url_of p) (listing_text p) st"
  have c: "same_items (snd ?c) st" by (rule check_detail_same)
  note u = process_posting_unfold[of site p st]
  show ?thesis
  proof (cases "job_url_of p \<in> existing_links st \<or> is_consultant (listing_text p)
      \<or> is_excluded_grade (listing_text p)")
    case True
    then have "process_posting site p st = skip_posting st" unfolding u by auto
    then show ?thesis using that[of st] by simp
  next
    case False
    show ?thesis
    proof (cases "detect_grades (listing_text p) \<noteq> {} \<or> is_intern_or_fellowship (listing_text p)")
      case True
      with False have "process_posting site p st
          = include_posting (posting_item site p) (job_url_of p) st" unfolding u by auto
      with False show ?thesis using that[of st] by simp
    next
      case F2: False
      show ?thesis
      proof (cases "fst ?c")
        case True
        with False F2 have "process_posting site p st
            = include_posting (posting_item site p) (job_url_of p) (snd ?c)" unfolding u by auto
        with False c show ?thesis using that[of "snd ?c"] by simp
      next
        case F3: False
        with False F2 have "process_posting site p st = skip_posting (snd ?c)"
          unfolding u by auto
        with c show ?thesis using that[of "snd ?c"] by simp
      qed
    qed
  qed
qed

lemma get_job_item:
  "get (job_item site t u l lt po) ''title'' = t"
  "get (job_item site t u l lt po) ''link'' = u"
  "get (job_item site t u l lt po) ''description'' = join '' '' (desc_parts t l lt po)"
  by (simp_all add: get_def job_item_def)

lemma link_posting_item: "link (posting_item site p) = job_url_of p"
  by (simp add: link_def posting_item_def get_job_item)

lemma links_inv_same: "same_items st1 st \<Longrightarrow> links_inv L st \<Longrightarrow> links_inv L st1"
  by (simp add: same_items_def links_inv_def)

lemma links_inv_skip: "links_inv L st \<Longrightarrow> links_inv L (skip_posting st)"
  by (simp add: skip_posting_def links_inv_def)

lemma links_inv_include:
  assumes "links_inv L st" "link it \<notin> existing_links st"
  shows "links_inv L (include_posting it (link it) st)"
  using assms unfolding links_inv_def include_posting_def by auto

lemma links_inv_process_posting:
  assumes "links_inv L st"
  shows "links_inv L (process_posting site p st)"
proof -
  obtain st1 where s: "same_items st1 st"
    and r: "process_posting site p st = skip_posting st1
         \<or> (job_url_of p \<notin> existing_links st
            \<and> process_posting site p st = include_posting (posting_item site p) (job_url_of p) st1)"
    by (rule process_posting_result)
  from s assms have i1: "links_inv L st1" by (rule links_inv_same)
  from r show ?thesis
  proof
    assume "process_posting site p st = skip_posting st1"
    with i1 show ?thesis by (simp add: links_inv_skip)
  next
    assume a: "job_url_of p \<notin> existing_links st
            \<and> process_posting site p st = include_posting (posting_item site p) (job_url_of p) st1"
    with s have "link (posting_item site p) \<notin> existing_links st1"
      by (simp add: link_posting_item same_items_def)
    from links_inv_include[OF i1 this] a show ?thesis by (simp add: link_posting_item)
  qed
qed

lemma links_inv_process_postings:
  "links_inv L st \<Longrightarrow> links_inv L (process_postings site ps st)"
  by (induction ps arbitrary: st) (simp_all add: links_inv_process_posting)

lemma fetch_listings_same: "included_jobs (snd (fetch_job_listings site off st)) = included_jobs st
  \<and> existing_links (snd (fetch_job_listings site off st)) = existing_links st
  \<and> total_processed (snd (fetch_job_listings site off st)) = total_processed st
  \<and> requests (snd (fetch_job_listings site off st)) = requests st @ [PostListing off]"
  by (simp add: fetch_job_listings_def)

lemma links_inv_fetch: "links_inv L st \<Longrightarrow> links_inv L (snd (fetch_job_listings site off st))"
  by (simp add: links_inv_def fetch_listings_same)

lemma links_inv_paginate:
  "links_inv L st \<Longrightarrow> links_inv L (paginate site off pages st)"
proof (induction site off pages st rule: paginate.induct)
  case (1 site off pages st)
  obtain r st1 where f: "fetch_job_listings site off st = (r, st1)" by fastforce
  with "1.prems" have i1: "links_inv L st1" using links_inv_fetch[of L st site off] by simp
  show ?case
  proof (cases "length (included_jobs st) < MAX_INCLUDED_JOBS \<and> pages < MAX_PAGES")
    case False
    with "1.prems" show ?thesis by (subst paginate.simps) auto
  next
    case True
    show ?thesis
    proof (cases r)
      case (Inl e)
      with True f i1 show ?thesis by (subst paginate.simps) simp
    next
      case (Inr data)
      let ?st2 = "process_postings site (jobPostings data) st1"
      have i2: "links_inv L ?st2" by (rule links_inv_process_postings[OF i1])
      show ?thesis
      proof (cases "jobPostings data = [] \<or> int (off + PAGE_SIZE) \<ge> total data")
        case stop: True
        with True f Inr i1 i2 show ?thesis by (subst paginate.simps) (auto simp: Let_def)
      next
        case False
        with True f Inr have "paginate site off pages st
            = paginate site (off + PAGE_SIZE) (pages + 1) ?st2"
          by (subst paginate.simps) (simp add: Let_def)
        moreover have "links_inv L (paginate site (off + PAGE_SIZE) (pages + 1) ?st2)"
        proof (rule "1.IH"[OF True f[symmetric] Inr _ refl refl _ i2])
          show "jobPostings data \<noteq> []" using False by simp
          show "\<not> total data \<le> int (off + PAGE_SIZE)" using False by simp
        qed
        ultimately show ?thesis by simp
      qed
    qed
  qed
qed

lemma process_posting_length:
  "length (included_jobs (process_posting site p st)) \<le> Suc (length (included_jobs st))"
proof -
  obtain st1 where s: "same_items st1 st"
    and r: "process_posting site p st = skip_posting st1
         \<or> (job_url_of p \<notin> existing_links st
            \<and> process_posting site p st = include_posting (posting_item site p) (job_url_of p) st1)"
    by (rule process_posting_result)
  from r s show ?thesis
    by (auto simp: same_items_def skip_posting_def include_posting_def)
qed

lemma process_posting_listing:
  "filter is_listing (requests (process_posting site p st)) = filter is_listing (requests st)"
proof -
  obtain st1 where s: "same_items st1 st"
    and r: "process_posting site p st = skip_posting st1
         \<or> (job_url_of p \<notin> existing_links st
            \<and> process_posting site p st = include_posting (posting_item site p) (job_url_of p) st1)"
    by (rule process_posting_result)
  from r s show ?thesis
    by (auto simp: same_items_def skip_posting_def include_posting_def)
qed

lemma process_postings_length:
  "length (included_jobs st) \<le> MAX_INCLUDED_JOBS \<Longrightarrow>
   length (included_jobs (process_postings site ps st)) \<le> MAX_INCLUDED_JOBS"
proof (induction ps arbitrary: st)
  case Nil
  then show ?case by simp
next
  case (Cons p ps)
  show ?case
  proof (cases "length (included_jobs st) \<ge> MAX_INCLUDED_JOBS")
    case True
    with Cons.prems show ?thesis by simp
  next
    case False
    with process_posting_length[of site p st]
    have "length (included_jobs (process_posting site p st)) \<le> MAX_INCLUDED_JOBS" by simp
    from Cons.IH[OF this] False show ?thesis by simp
  qed
qed

lemma process_postings_listing:
  "filter is_listing (requests (process_postings site ps st)) = filter is_listing (requests st)"
  by (induction ps arbitrary: st) (simp_all add: process_posting_listing)

lemma paginate_length:
  "length (included_jobs st) \<le> MAX_INCLUDED_JOBS \<Longrightarrow>
   length (included_jobs (paginate site off pages st)) \<le> MAX_INCLUDED_JOBS"
proof (induction site off pages st rule: paginate.induct)
  case (1 site off pages st)
  obtain r st1 where f: "fetch_job_listings site off st = (r, st1)" by fastforce
  with "1.prems" have i1: "length (included_jobs st1) \<le> MAX_INCLUDED_JOBS"
    using fetch_listings_same[of site off st] by simp
  show ?case
  proof (cases "length (included_jobs st) < MAX_INCLUDED_JOBS \<and> pages < MAX_PAGES")
    case False
    with "1.prems" show ?thesis by (subst paginate.simps) auto
  next
    case True
    show ?thesis
    proof (cases r)
      case (Inl e)
      with True f i1 show ?thesis by (subst paginate.simps) simp
    next
      case (Inr data)
      let ?st2 = "process_postings site (jobPostings data) st1"
      have i2: "length (included_jobs ?st2) \<le> MAX_INCLUDED_JOBS"
        by (rule process_postings_length[OF i1])
      show ?thesis
      proof (cases "jobPostings data = [] \<or> int (off + PAGE_SIZE) \<ge> total data")
        case stop: True
        with True f Inr i1 i2 show ?thesis by (subst paginate.simps) (auto simp: Let_def)
      next
        case False
        with True f Inr have "paginate site off pages st
            = paginate site (off + PAGE_SIZE) (pages + 1) ?st2"
          by (subst paginate.simps) (simp add: Let_def)
        moreover have "length (included_jobs (paginate site (off + PAGE_SIZE) (pages + 1) ?st2))
            \<le> MAX_INCLUDED_JOBS"
        proof (rule "1.IH"[OF True f[symmetric] Inr _ refl refl _ i2])
          show "jobPostings data \<noteq> []" using False by simp
          show "\<not> total data \<le> int (off + PAGE_SIZE)" using False by simp
        qed
        ultimately show ?thesis by simp
      qed
    qed
  qed
qed

lemma paginate_listing_count:
  "pages \<le> MAX_PAGES \<Longrightarrow>
   length (filter is_listing (requests (paginate site off pages st))) + pages
     \<le> length (filter is_listing (requests st)) + MAX_PAGES"
proof (induction site off pages st rule: paginate.induct)
  case (1 site off pages st)
  obtain r st1 where f: "fetch_job_listings site off st = (r, st1)" by fastforce
  then have c1: "length (filter is_listing (requests st1))
      = Suc (length (filter is_listing (requests st)))"
    using fetch_listings_same[of site off st] by (simp add: is_listing_def)
  show ?case
  proof (cases "length (included_jobs st) < MAX_INCLUDED_JOBS \<and> pages < MAX_PAGES")
    case False
    with "1.prems" show ?thesis by (subst paginate.simps) auto
  next
    case True
    show ?thesis
    proof (cases r)
      case (Inl e)
      with True f c1 show ?thesis by (subst paginate.simps) simp
    next
      case (Inr data)
      let ?st2 = "process_postings site (jobPostings data) st1"
      have c2: "length (filter is_listing (requests ?st2))
          = Suc (length (filter is_listing (requests st)))"
        using c1 by (simp add: process_postings_listing)
      show ?thesis
      proof (cases "jobPostings data = [] \<or> int (off + PAGE_SIZE) \<ge> total data")
        case stop: True
        with True f Inr c1 c2 show ?thesis by (subst paginate.simps) (auto simp: Let_def)
      next
        case False
        with True f Inr have "paginate site off pages st
            = paginate site (off + PAGE_SIZE) (pages + 1) ?st2"
          by (subst paginate.simps) (simp add: Let_def)
        moreover have "length (filter is_listing
              (requests (paginate site (off + PAGE_SIZE) (pages + 1) ?st2))) + (pages + 1)
            \<le> length (filter is_listing (requests ?st2)) + MAX_PAGES"
        proof (rule "1.IH"[OF True f[symmetric] Inr _ refl refl])
          show "jobPostings data \<noteq> []" using False by simp
          show "\<not> total data \<le> int (off + PAGE_SIZE)" using False by simp
          show "pages + 1 \<le> MAX_PAGES" using True by simp
        qed
        ultimately show ?thesis using c2 by simp
      qed
    qed
  qed
qed

lemma merge_items_filter:
  "merge_items existing_items included
     = filter (\<lambda>item. length (get item ''title'') \<ge> 5) (existing_items @ included)"
proof -
  have "foldl (\<lambda>acc job. acc @ [job]) xs ys = xs @ ys" for xs ys :: "item list"
    by (induction ys arbitrary: xs) simp_all
  then show ?thesis by (simp add: merge_items_def)
qed

subsection \<open>ASCII text stays ASCII\<close>

lemma code_upper_le: "code (upper_char c) \<le> code c"
  by (simp add: code_upper_char)

lemma ascii_text_iff: "ascii_text s \<longleftrightarrow> (\<forall>c\<in>set s. code c < 128)"
  by (simp add: ascii_text_def list_all_iff)

lemma ascii_upper: "ascii_text s \<Longrightarrow> ascii_text (upper s)"
  using code_upper_le by (fastforce simp: ascii_text_iff upper_def intro: le_less_trans)

lemma ascii_append [simp]: "ascii_text (a @ b) \<longleftrightarrow> ascii_text a \<and> ascii_text b"
  by (auto simp: ascii_text_iff)

lemma ascii_Nil [simp]: "ascii_text []"
  by (simp add: ascii_text_def)

lemma ascii_Cons [simp]: "ascii_text (c # s) \<longleftrightarrow> code c < 128 \<and> ascii_text s"
  by (simp add: ascii_text_def)

lemma code_hyphen [simp]: "code (CHR ''-'') < 128" "code (CHR '' '') < 128"
  by (simp_all add: code_def)

lemma ascii_grade_sub: "ascii_text s \<Longrightarrow> ascii_text (grade_sub pw s)"
proof (induction pw s rule: grade_sub_induct)
  case (Nil pw)
  then show ?case by simp
next
  case (Match pw c cs g1 g2 rest)
  from grade_match_Some[OF Match(2)] have s: "c # cs = g1 @ g2 @ rest" by simp
  with Match.prems have "ascii_text g1" "ascii_text g2" "ascii_text rest"
    by (simp_all only: ascii_append)
  moreover have "ascii_text ''-''" by (simp add: ascii_text_def code_def)
  ultimately show ?case using Match by (simp add: grade_sub_match ascii_upper)
next
  case (Step pw c cs)
  then show ?case by (simp add: grade_sub_step ascii_text_def)
qed

lemma ascii_dropWhile: "ascii_text s \<Longrightarrow> ascii_text (dropWhile P s)"
  by (auto simp: ascii_text_iff dest: set_dropWhileD)

lemma ascii_collapse: "ascii_text s \<Longrightarrow> ascii_text (collapse_ws s)"
proof (induction s rule: collapse_ws.induct)
  case 1
  then show ?case by simp
next
  case (2 c cs)
  then have cs: "ascii_text cs" and c: "code c < 128" by (simp_all add: ascii_text_def)
  show ?case
  proof (cases "is_space c")
    case True
    with "2.IH"(1)[OF True ascii_dropWhile[OF cs]] show ?thesis
      by (simp add: ascii_text_def code_def)
  next
    case False
    with "2.IH"(2)[OF False cs] c show ?thesis by (simp add: ascii_text_def)
  qed
qed

lemma ascii_strip: "ascii_text s \<Longrightarrow> ascii_text (strip s)"
  by (auto simp: ascii_text_iff strip_def dest!: set_dropWhileD)

lemma ascii_normalize: "ascii_text s \<Longrightarrow> ascii_text (normalize_text s)"
  by (simp add: normalize_text_def nfkd_def fold_dashes_def ascii_strip ascii_collapse
      ascii_upper ascii_grade_sub)

subsection \<open>Detail requests without text, and the exits of the loop\<close>

lemma fetch_json_no_text:
  assumes "json_no_text (detail_json_answer site ep)"
  obtains dj where
    "fetch_job_detail_json site ep st = (dj, st\<lparr>requests := requests st @ [GetDetailJson ep]\<rparr>)"
    "dj = None \<or> (\<exists>d. dj = Some d
        \<and> list_all is_space (jobDescription d) \<and> list_all is_space (additionalInformation d)
        \<and> list_all is_space (jobReqSubCategory d) \<and> list_all is_space (workerSubType d))"
  using assms
  by (auto simp: json_no_text_def fetch_job_detail_json_def split: response.splits option.splits)

lemma fetch_text_no_text:
  assumes "html_no_text (detail_text_answer site url)"
  obtains ht where
    "fetch_job_detail_text site url st = (ht, st\<lparr>requests := requests st @ [GetDetailText url]\<rparr>)"
    "list_all is_space ht"
  using assms
  by (auto simp: html_no_text_def fetch_job_detail_text_def split: response.splits)

lemma should_include_sep_spaces:
  "list_all is_space ws \<Longrightarrow> should_include_job (lt @ '' '' @ ws) = should_include_job lt"
  using should_include_app_spaces[of "'' '' @ ws" lt] by simp

lemma check_detail_no_text:
  assumes "\<not> should_include_job lt" "json_no_text (detail_json_answer site ep)"
    "html_no_text (detail_text_answer site url)"
  shows "check_detail site ep url lt st
       = (False, st\<lparr>requests := requests st @ [GetDetailJson ep, GetDetailText url]\<rparr>)"
proof -
  let ?st1 = "st\<lparr>requests := requests st @ [GetDetailJson ep]\<rparr>"
  obtain dj where j: "fetch_job_detail_json site ep st = (dj, ?st1)"
    and dj: "dj = None \<or> (\<exists>d. dj = Some d
        \<and> list_all is_space (jobDescription d) \<and> list_all is_space (additionalInformation d)
        \<and> list_all is_space (jobReqSubCategory d) \<and> list_all is_space (workerSubType d))"
    by (rule fetch_json_no_text[OF assms(2)])
  obtain ht where h: "fetch_job_detail_text site url ?st1
        = (ht, ?st1\<lparr>requests := requests ?st1 @ [GetDetailText url]\<rparr>)"
    and ht: "list_all is_space ht"
    by (rule fetch_text_no_text[OF assms(3)])
  define dt where "dt = (case dj of None \<Rightarrow> []
      | Some job_desc \<Rightarrow> join '' '' [jobDescription job_desc, additionalInformation job_desc,
                            jobReqSubCategory job_desc, workerSubType job_desc])"
  from dj have ws: "list_all is_space dt" unfolding dt_def by auto
  have n1: "\<not> should_include_job (lt @ '' '' @ dt)"
    using should_include_sep_spaces[OF ws, of lt] assms(1) by blast
  let ?dt2 = "if ht \<noteq> [] then ht else dt"
  from ws ht have ws2: "list_all is_space ?dt2" by simp
  have n2: "\<not> should_include_job (lt @ '' '' @ ?dt2)"
    using should_include_sep_spaces[OF ws2, of lt] assms(1) by blast
  have "check_detail site ep url lt st
      = (should_include_job (lt @ '' '' @ ?dt2), ?st1\<lparr>requests := requests ?st1 @ [GetDetailText url]\<rparr>)"
    unfolding check_detail_def j using n1 h by (simp add: dt_def[symmetric] Let_def)
  with n2 show ?thesis by simp
qed

lemma driver_listing_text: "listing_text driver_posting = ''Driver Juba''"
  by code_simp

lemma paginate_stop:
  "\<not> (length (included_jobs st) < MAX_INCLUDED_JOBS \<and> pages < MAX_PAGES) \<Longrightarrow>
   paginate site off pages st = st"
  by (subst paginate.simps) auto

lemma paginate_step:
  assumes "length (included_jobs st) < MAX_INCLUDED_JOBS \<and> pages < MAX_PAGES"
  shows "paginate site off pages st =
     (case fetch_job_listings site off st of
        (Inl e, st1) \<Rightarrow> st1
      | (Inr data, st1) \<Rightarrow>
          if jobPostings data = [] then st1
          else if total data \<le> int (off + PAGE_SIZE)
            then process_postings site (jobPostings data) st1
          else paginate site (off + PAGE_SIZE) (pages + 1)
                 (process_postings site (jobPostings data) st1))"
  using assms by (subst paginate.simps) (simp add: Let_def split: prod.splits sum.splits)

lemma paginate_error:
  assumes "fst (fetch_job_listings site off st) = Inl ()"
  shows "included_jobs (paginate site off pages st) = included_jobs st"
proof (cases "length (included_jobs st) < MAX_INCLUDED_JOBS \<and> pages < MAX_PAGES")
  case True
  obtain r st1 where f: "fetch_job_listings site off st = (r, st1)" by fastforce
  with assms have r: "r = Inl ()" by simp
  from f have "included_jobs st1 = included_jobs st"
    using fetch_listings_same[of site off st] by simp
  with True f r show ?thesis by (simp add: paginate_step)
next
  case False
  then show ?thesis by (simp add: paginate_stop)
qed

subsection \<open>A consultant mention at the start of a word\<close>

lemma ci_prefix_extend: "ci_prefix a w = Some r \<Longrightarrow> ci_prefix a (w @ d) = Some (r @ d)"
  by (induction a w rule: ci_prefix.induct) (auto split: if_splits)

lemma ci_prefix_Consultant: "ci_prefix ''CONSULTAN'' ''Consultant'' = Some ''t''"
  by code_simp

lemma is_consultant_word:
  assumes "at_boundary (rev pre)"
  shows "is_consultant (pre @ ''Consultant'' @ post)"
proof -
  have "ci_prefix ''CONSULTAN'' (''Consultant'' @ post) = Some (''t'' @ post)"
    by (rule ci_prefix_extend[OF ci_prefix_Consultant])
  then have "pat_consultant (''Consultant'' @ post)"
    by (simp only: pat_consultant_def) simp
  moreover have "''Consultant'' @ post \<noteq> []" by simp
  ultimately show ?thesis
    unfolding is_consultant_def search_b_False_iff using assms by blast
qed

section \<open>The inclusion decision\<close>



text \<open>
  C4. On the text "Internship" the keyword pattern \<open>\b(INTERN|FELLOWSHIP)\b\<close> finds
  no match, because no word boundary follows "Intern"; \<open>should_include_job\<close> returns
  false there, while the bare word "Intern" is accepted.
\<close>

theorem internship_not_included:
  "is_intern_or_fellowship ''Internship'' = False
   \<and> should_include_job ''Internship'' = False
   \<and> is_intern_or_fellowship ''Intern'' = True
   \<and> should_include_job ''Intern'' = True"
proof -
  have "is_intern_or_fellowship ''Internship'' = False" by code_simp
  moreover have "should_include_job ''Internship'' = False" by code_simp
  moreover have "is_intern_or_fellowship ''Intern'' = True" by code_simp
  moreover have "should_include_job ''Intern'' = True" by code_simp
  ultimately show ?thesis by blast
qed

section \<open>Normalisation and grades\<close>








section \<open>The run: escalation, merge, deduplication, pagination\<close>



text \<open>
  C2. The emitted items are the prior items in their order followed by the new items in
  acceptance order, with the items whose title has fewer than 5 characters removed from
  the whole sequence: prior items as well as newly accepted ones. An accepted posting
  titled "P-3" (an eligible text of 3 characters) is dropped.
\<close>

theorem merged_feed_order_and_filter:
  "scrape_jobs site links prior
     = merge_items prior (included_jobs (paginate site 0 0 (initial_state links)))
   \<and> merge_items prior new
     = filter (\<lambda>it. \<not> length (get it ''title'') < 5) prior
       @ filter (\<lambda>it. \<not> length (get it ''title'') < 5) new
   \<and> (it \<in> set (merge_items prior new)
        \<longleftrightarrow> it \<in> set (prior @ new) \<and> \<not> length (get it ''title'') < 5)
   \<and> should_include_job (listing_text_of ''P-3'' ''Unknown'' [])
   \<and> merge_items prior (new @ [job_item site ''P-3'' url ''Unknown''
          (listing_text_of ''P-3'' ''Unknown'' []) posted_on])
     = merge_items prior new
   \<and> merge_items (prior @ [[''title'' \<mapsto> ''P-3'', ''link'' \<mapsto> url]]) new
     = merge_items prior new"
proof -
  have ok: "(\<lambda>item. length (get item ''title'') \<ge> 5) = (\<lambda>it. \<not> length (get it ''title'') < 5)"
    by (simp add: fun_eq_iff not_less)
  have m: "merge_items xs ys = filter (\<lambda>it. \<not> length (get it ''title'') < 5) (xs @ ys)"
    for xs ys by (simp only: merge_items_filter ok)
  have 1: "scrape_jobs site links prior
     = merge_items prior (included_jobs (paginate site 0 0 (initial_state links)))"
    by (simp add: scrape_jobs_def)
  have 2: "merge_items prior new
     = filter (\<lambda>it. \<not> length (get it ''title'') < 5) prior
       @ filter (\<lambda>it. \<not> length (get it ''title'') < 5) new"
    by (simp add: m)
  have 3: "it \<in> set (merge_items prior new)
        \<longleftrightarrow> it \<in> set (prior @ new) \<and> \<not> length (get it ''title'') < 5"
    unfolding m by auto
  have 4: "should_include_job (listing_text_of ''P-3'' ''Unknown'' [])" by code_simp
  have 5: "merge_items prior (new @ [job_item site ''P-3'' url ''Unknown''
          (listing_text_of ''P-3'' ''Unknown'' []) posted_on])
     = merge_items prior new"
    by (simp add: m get_job_item)
  have "get [''title'' \<mapsto> ''P-3'', ''link'' \<mapsto> url] ''title'' = ''P-3''"
    by (simp add: get_def)
  then have 6: "merge_items (prior @ [[''title'' \<mapsto> ''P-3'', ''link'' \<mapsto> url]]) new
     = merge_items prior new"
    by (simp add: m)
  from 1 2 3 4 5 6 show ?thesis by blast
qed



text \<open>
  C9. The pagination loop is a total function (its termination is proved with the
  measure \<open>MAX_PAGES - pages_fetched\<close>). A run accepts at most 50 items and sends at
  most 50 listing requests. The loop is left when the cap of accepted items or of pages
  is reached, when a page request fails, when a page is empty, and when the next offset
  reaches the reported total; otherwise it goes on with the next page. When a page
  request fails, the items accepted so far are the ones merged with the prior items.
\<close>

theorem pagination_bounded:
  "MAX_INCLUDED_JOBS = 50 \<and> MAX_PAGES = 50
   \<and> length (included_jobs (paginate site 0 0 (initial_state links))) \<le> MAX_INCLUDED_JOBS
   \<and> length (filter is_listing (requests (paginate site 0 0 (initial_state links)))) \<le> MAX_PAGES
   \<and> (\<not> (length (included_jobs st) < MAX_INCLUDED_JOBS \<and> pages < MAX_PAGES) \<longrightarrow>
        paginate site off pages st = st)
   \<and> (length (included_jobs st) < MAX_INCLUDED_JOBS \<and> pages < MAX_PAGES \<longrightarrow>
        (case fetch_job_listings site off st of
           (Inl e, st1) \<Rightarrow> paginate site off pages st = st1
         | (Inr data, st1) \<Rightarrow>
             (jobPostings data = [] \<longrightarrow> paginate site off pages st = st1)
             \<and> (jobPostings data \<noteq> [] \<and> total data \<le> int (off + PAGE_SIZE) \<longrightarrow>
                  paginate site off pages st = process_postings site (jobPostings data) st1)
             \<and> (jobPostings data \<noteq> [] \<and> \<not> total data \<le> int (off + PAGE_SIZE) \<longrightarrow>
                  paginate site off pages st
                    = paginate site (off + PAGE_SIZE) (pages + 1)
                        (process_postings site (jobPostings data) st1))))
   \<and> (fst (fetch_job_listings site off st) = Inl () \<longrightarrow>
        included_jobs (paginate site off pages st) = included_jobs st
        \<and> merge_items prior (included_jobs (paginate site off pages st))
            = merge_items prior (included_jobs st))"
proof -
  let ?st = "paginate site 0 0 (initial_state links)"
  have 1: "length (included_jobs ?st) \<le> MAX_INCLUDED_JOBS"
    by (rule paginate_length) (simp add: initial_state_def)
  have "length (filter is_listing (requests ?st)) + 0
      \<le> length (filter is_listing (requests (initial_state links))) + MAX_PAGES"
    by (rule paginate_listing_count) simp
  then have 2: "length (filter is_listing (requests ?st)) \<le> MAX_PAGES"
    by (simp add: initial_state_def)
  have 3: "\<not> (length (included_jobs st) < MAX_INCLUDED_JOBS \<and> pages < MAX_PAGES) \<longrightarrow>
        paginate site off pages st = st"
    using paginate_stop[of st pages site off] by blast
  have 4: "length (included_jobs st) < MAX_INCLUDED_JOBS \<and> pages < MAX_PAGES \<longrightarrow>
        (case fetch_job_listings site off st of
           (Inl e, st1) \<Rightarrow> paginate site off pages st = st1
         | (Inr data, st1) \<Rightarrow>
             (jobPostings data = [] \<longrightarrow> paginate site off pages st = st1)
             \<and> (jobPostings data \<noteq> [] \<and> total data \<le> int (off + PAGE_SIZE) \<longrightarrow>
                  paginate site off pages st = process_postings site (jobPostings data) st1)
             \<and> (jobPostings data \<noteq> [] \<and> \<not> total data \<le> int (off + PAGE_SIZE) \<longrightarrow>
                  paginate site off pages st
                    = paginate site (off + PAGE_SIZE) (pages + 1)
                        (process_postings site (jobPostings data) st1)))"
    by (auto simp: paginate_step split: prod.splits sum.splits)
  have 5: "fst (fetch_job_listings site off st) = Inl () \<longrightarrow>
        included_jobs (paginate site off pages st) = included_jobs st
        \<and> merge_items prior (included_jobs (paginate site off pages st))
            = merge_items prior (included_jobs st)"
    by (simp add: paginate_error)
  have 0: "MAX_INCLUDED_JOBS = 50 \<and> MAX_PAGES = 50"
    by (simp add: MAX_INCLUDED_JOBS_def MAX_PAGES_def)
  from 0 1 2 3 4 5 show ?thesis by blast
qed

theorem pagination_bounded_witness:
  "fst (fetch_job_listings offline_site 0 (initial_state {})) = Inl ()
   \<and> length (included_jobs (initial_state {})) < MAX_INCLUDED_JOBS \<and> (0::nat) < MAX_PAGES
   \<and> paginate offline_site 0 0 (initial_state {})
       = (initial_state {})\<lparr>requests := [PostListing 0]\<rparr>
   \<and> merge_items [old_item] (included_jobs (paginate offline_site 0 0 (initial_state {})))
       = merge_items [old_item] []
   \<and> \<not> (length (included_jobs (initial_state {})) < MAX_INCLUDED_JOBS \<and> (50::nat) < MAX_PAGES)
   \<and> paginate offline_site 0 50 (initial_state {}) = initial_state {}
   \<and> paginate (page_site [] 0) 0 0 (initial_state {})
       = (initial_state {})\<lparr>requests := [PostListing 0]\<rparr>
   \<and> paginate (page_site [driver_posting] 1) 0 0 (initial_state {})
       = process_postings (page_site [driver_posting] 1) [driver_posting]
           ((initial_state {})\<lparr>requests := [PostListing 0]\<rparr>)
   \<and> paginate (page_site [driver_posting] 25) 0 0 (initial_state {})
       = paginate (page_site [driver_posting] 25) 20 1
           (process_postings (page_site [driver_posting] 25) [driver_posting]
              ((initial_state {})\<lparr>requests := [PostListing 0]\<rparr>))"
proof -
  let ?s0 = "initial_state {}"
  let ?s1 = "(initial_state {})\<lparr>requests := [PostListing 0]\<rparr>"
  have c: "length (included_jobs ?s0) < MAX_INCLUDED_JOBS \<and> (0::nat) < MAX_PAGES"
    by (simp add: initial_state_def MAX_INCLUDED_JOBS_def MAX_PAGES_def)
  have n: "\<not> (length (included_jobs ?s0) < MAX_INCLUDED_JOBS \<and> (50::nat) < MAX_PAGES)"
    by (simp add: MAX_PAGES_def)
  have f0: "fetch_job_listings offline_site 0 ?s0 = (Inl (), ?s1)"
    by (simp add: fetch_job_listings_def offline_site_def initial_state_def)
  have f1: "fetch_job_listings (page_site ps k) 0 ?s0
      = (Inr \<lparr>jobPostings = ps, total = k\<rparr>, ?s1)" for ps k
    by (simp add: fetch_job_listings_def page_site_def offline_site_def initial_state_def)
  have i: "included_jobs ?s0 = []" by (simp add: initial_state_def)
  note a = pagination_bounded [where site = offline_site and links = "{}" and st = ?s0
      and off = 0 and pages = 0 and prior = "[old_item]"]
  note b = pagination_bounded [where site = offline_site and links = "{}" and st = ?s0
      and off = 0 and pages = 50 and prior = "[old_item]"]
  note e = pagination_bounded [where site = "page_site [] 0" and links = "{}" and st = ?s0
      and off = 0 and pages = 0 and prior = "[old_item]"]
  note t = pagination_bounded [where site = "page_site [driver_posting] 1" and links = "{}"
      and st = ?s0 and off = 0 and pages = 0 and prior = "[old_item]"]
  note g = pagination_bounded [where site = "page_site [driver_posting] 25" and links = "{}"
      and st = ?s0 and off = 0 and pages = 0 and prior = "[old_item]"]
  have 1: "paginate offline_site 0 0 ?s0 = ?s1" using a c by (simp add: f0)
  have 2: "merge_items [old_item] (included_jobs (paginate offline_site 0 0 ?s0))
      = merge_items [old_item] []" using a f0 i by simp
  have 3: "paginate offline_site 0 50 ?s0 = ?s0" using b n by blast
  have 4: "paginate (page_site [] 0) 0 0 ?s0 = ?s1" using e c by (simp add: f1)
  have 5: "paginate (page_site [driver_posting] 1) 0 0 ?s0
      = process_postings (page_site [driver_posting] 1) [driver_posting] ?s1"
    using t c by (simp add: f1 PAGE_SIZE_def)
  have 6: "paginate (page_site [driver_posting] 25) 0 0 ?s0
       = paginate (page_site [driver_posting] 25) 20 1
           (process_postings (page_site [driver_posting] 25) [driver_posting] ?s1)"
    using g c by (simp add: f1 PAGE_SIZE_def)
  from f0 c n 1 2 3 4 5 6 show ?thesis by simp
qed

text \<open>
  C10. The description of an accepted posting is built from the title, the location,
  the listing text and the posting date alone, so it is the same whatever the detail
  requests return. Its "Grade:" part lists the grades detected in the listing text, each
  of which occurs in the normalised listing text; when no grade is detected there (the
  posting was accepted through its detail text or through the intern or fellowship
  keyword), the description has no "Grade:" part.
\<close>

theorem grade_line_from_listing_text:
  "(included_jobs (process_posting site p st) = included_jobs st
      \<or> included_jobs (process_posting site p st) = included_jobs st @ [posting_item site p])
   \<and> get (posting_item site p) ''description''
       = join '' '' (desc_parts (title_of p) (location_of p) (listing_text p) (p_postedOn p))
   \<and> get (posting_item site p) ''description'' = get (posting_item site' p) ''description''
   \<and> desc_parts t l lt po
       = [''UNHCR has a vacancy for the position of '' @ t @ ''.'', ''Location: '' @ l @ ''.'']
         @ (if detect_grades lt = {} then []
            else [''Grade: '' @ join '', '' (sorted_list_of_set (detect_grades lt)) @ ''.''])
         @ (if po = [] then [] else [''Posted: '' @ po @ ''.''])
   \<and> set (sorted_list_of_set (detect_grades lt)) = detect_grades lt
   \<and> (g \<in> detect_grades lt \<longrightarrow> g \<in> set INCLUDED_GRADES \<and> sublist g (normalize_text lt))
   \<and> (detect_grades lt = {} \<longrightarrow>
        desc_parts t l lt po
          = [''UNHCR has a vacancy for the position of '' @ t @ ''.'', ''Location: '' @ l @ ''.'']
            @ (if po = [] then [] else [''Posted: '' @ po @ ''.''])
        \<and> list_all (\<lambda>part. \<not> prefix ''Grade:'' part) (desc_parts t l lt po))"
proof -
  obtain st1 where s: "same_items st1 st"
    and r: "process_posting site p st = skip_posting st1
         \<or> (job_url_of p \<notin> existing_links st
            \<and> process_posting site p st = include_posting (posting_item site p) (job_url_of p) st1)"
    by (rule process_posting_result)
  from r s have 1: "included_jobs (process_posting site p st) = included_jobs st
      \<or> included_jobs (process_posting site p st) = included_jobs st @ [posting_item site p]"
    by (auto simp: same_items_def skip_posting_def include_posting_def)
  have 2: "get (posting_item site p) ''description''
       = join '' '' (desc_parts (title_of p) (location_of p) (listing_text p) (p_postedOn p))"
    for site by (simp add: posting_item_def get_job_item)
  have 3: "get (posting_item site p) ''description'' = get (posting_item site' p) ''description''"
    by (simp only: 2)
  have 4: "desc_parts t l lt po
       = [''UNHCR has a vacancy for the position of '' @ t @ ''.'', ''Location: '' @ l @ ''.'']
         @ (if detect_grades lt = {} then []
            else [''Grade: '' @ join '', '' (sorted_list_of_set (detect_grades lt)) @ ''.''])
         @ (if po = [] then [] else [''Posted: '' @ po @ ''.''])"
    by (simp add: desc_parts_def detect_grades_normalized Let_def)
  have "finite (detect_grades lt)" by (simp add: detect_grades_def)
  then have 5: "set (sorted_list_of_set (detect_grades lt)) = detect_grades lt" by simp
  have 6: "g \<in> detect_grades lt \<longrightarrow> g \<in> set INCLUDED_GRADES \<and> sublist g (normalize_text lt)"
    by (simp add: detect_grades_def)
  have 7: "detect_grades lt = {} \<longrightarrow>
        desc_parts t l lt po
          = [''UNHCR has a vacancy for the position of '' @ t @ ''.'', ''Location: '' @ l @ ''.'']
            @ (if po = [] then [] else [''Posted: '' @ po @ ''.''])
        \<and> list_all (\<lambda>part. \<not> prefix ''Grade:'' part) (desc_parts t l lt po)"
    by (simp add: 4)
  from 1 2[of site] 3 4 5 6 7 show ?thesis by blast
qed

theorem grade_line_from_listing_text_witness:
  "''P-3'' \<in> detect_grades ''Protection Officer P-3 Geneva''
   \<and> sublist ''P-3'' (normalize_text ''Protection Officer P-3 Geneva'')
   \<and> detect_grades ''Associate Officer Unknown'' = {}
   \<and> desc_parts ''Associate Officer'' ''Unknown'' ''Associate Officer Unknown'' []
       = [''UNHCR has a vacancy for the position of Associate Officer.'', ''Location: Unknown.'']"
proof -
  have a: "''P-3'' \<in> detect_grades ''Protection Officer P-3 Geneva''" by code_simp
  have b: "detect_grades ''Associate Officer Unknown'' = {}" by code_simp
  note t1 = grade_line_from_listing_text [where site = offline_site and site' = offline_site
      and p = driver_posting and st = "initial_state {}" and t = "''Protection Officer P-3''"
      and l = "''Geneva''" and lt = "''Protection Officer P-3 Geneva''" and po = "[]"
      and g = "''P-3''"]
  note t2 = grade_line_from_listing_text [where site = offline_site and site' = offline_site
      and p = driver_posting and st = "initial_state {}" and t = "''Associate Officer''"
      and l = "''Unknown''" and lt = "''Associate Officer Unknown''" and po = "[]"
      and g = "''P-3''"]
  from t1 a have 1: "sublist ''P-3'' (normalize_text ''Protection Officer P-3 Geneva'')" by blast
  from t2 b have 2: "desc_parts ''Associate Officer'' ''Unknown'' ''Associate Officer Unknown'' []
       = [''UNHCR has a vacancy for the position of Associate Officer.'', ''Location: Unknown.'']"
    by simp
  from a b 1 2 show ?thesis by blast
qed

end
